theory Spec2Isabelle
  imports Complex_Main "HOL-Library.AList"
begin

section \<open>The TTL cache (class Cache of the example agents)\<close>

text \<open>
  The cache keeps a Python dict from keys to pairs (value, expires). A Python dict has
  distinct keys and iterates in insertion order, and \<open>sorted\<close> is stable, so the dict is
  an association list in insertion order: \<open>d[k] = x\<close> is \<open>AList.update\<close> (replace in
  place, or append), \<open>del d[k]\<close> is \<open>AList.delete\<close>. Clock readings \<open>time.time()\<close>
  are explicit arguments, taken as real numbers of seconds; \<open>set\<close> reads the clock twice
  (once in the eviction block, once for the new expiry time).
\<close>

record ('k, 'v) cache =
  data :: "('k \<times> 'v \<times> real) list"
  max_size :: int

definition Cache :: "int \<Rightarrow> ('k, 'v) cache" where
  "Cache m = \<lparr>data = [], max_size = m\<rparr>"

definition cache_get :: "('k, 'v) cache \<Rightarrow> 'k \<Rightarrow> real \<Rightarrow> 'v option \<times> ('k, 'v) cache" where
  "cache_get c key now =
     (case map_of (data c) key of
        None \<Rightarrow> (None, c)
      | Some (val, expires) \<Rightarrow>
          if expires > now then (Some val, c)
          else (None, c\<lparr>data := AList.delete key (data c)\<rparr>))"

text \<open>\<open>[k for k, (_, exp) in d.items() if exp <= now]\<close>\<close>

definition expired_keys :: "('k \<times> 'v \<times> real) list \<Rightarrow> real \<Rightarrow> 'k list" where
  "expired_keys d now = map fst (filter (\<lambda>(k, v, exp). exp \<le> now) d)"

text \<open>\<open>for k in ks: del d[k]\<close>\<close>

definition del_keys :: "'k list \<Rightarrow> ('k \<times> 'v) list \<Rightarrow> ('k \<times> 'v) list" where
  "del_keys ks d = foldl (\<lambda>d' k. AList.delete k d') d ks"

text \<open>The Python slice \<open>xs[:n]\<close>: a negative \<open>n\<close> counts from the end.\<close>

definition py_slice_to :: "'a list \<Rightarrow> int \<Rightarrow> 'a list" where
  "py_slice_to xs n = (if 0 \<le> n then take (nat n) xs else take (nat (int (length xs) + n)) xs)"

text \<open>The block \<open>if len(self._data) >= self._max_size: ...\<close> of \<open>Cache.set\<close>.\<close>

definition evict :: "('k, 'v) cache \<Rightarrow> real \<Rightarrow> ('k, 'v) cache" where
  "evict c now =
     (if int (length (data c)) \<ge> max_size c then
        let d1 = del_keys (expired_keys (data c) now) (data c) in
        if int (length d1) \<ge> max_size c then
          let to_drop = py_slice_to (sort_key (\<lambda>x. snd (snd x)) d1) (max_size c div 10)
          in c\<lparr>data := del_keys (map fst to_drop) d1\<rparr>
        else c\<lparr>data := d1\<rparr>
      else c)"

definition cache_set ::
  "('k, 'v) cache \<Rightarrow> 'k \<Rightarrow> 'v \<Rightarrow> int \<Rightarrow> real \<Rightarrow> real \<Rightarrow> ('k, 'v) cache" where
  "cache_set c key val ttl now1 now2 =
     (let c' = evict c now1
      in c'\<lparr>data := AList.update key (val, now2 + real_of_int ttl) (data c')\<rparr>)"

text \<open>Sequences of cache operations, each with the clock readings it takes.\<close>

datatype ('k, 'v) cache_op = Get 'k real | Set 'k 'v int real real

fun apply_cache_op :: "('k, 'v) cache \<Rightarrow> ('k, 'v) cache_op \<Rightarrow> ('k, 'v) cache" where
  "apply_cache_op c (Get k now) = snd (cache_get c k now)"
| "apply_cache_op c (Set k v ttl now1 now2) = cache_set c k v ttl now1 now2"

fun run_cache_ops :: "('k, 'v) cache \<Rightarrow> ('k, 'v) cache_op list \<Rightarrow> ('k, 'v) cache" where
  "run_cache_ops c [] = c"
| "run_cache_ops c (x # xs) = run_cache_ops (apply_cache_op c x) xs"

fun set_keys :: "('k, 'v) cache_op list \<Rightarrow> 'k set" where
  "set_keys [] = {}"
| "set_keys (Get k now # xs) = set_keys xs"
| "set_keys (Set k v ttl now1 now2 # xs) = insert k (set_keys xs)"

definition keys_of :: "('k, 'v) cache \<Rightarrow> 'k set" where
  "keys_of c = fst ` set (data c)"

text \<open>The invariant of a Python dict: its keys are distinct.\<close>

definition wf_cache :: "('k, 'v) cache \<Rightarrow> bool" where
  "wf_cache c = distinct (map fst (data c))"

text \<open>
  What may happen between a set on a key and a later get on it: \<open>undisturbed k t c xs\<close>
  says that, running \<open>xs\<close> from \<open>c\<close>, no operation sets \<open>k\<close>, no set evicts \<open>k\<close>
  in its capacity block, and no operation reads the clock later than \<open>t\<close>.
\<close>

fun sets_key :: "('k, 'v) cache_op \<Rightarrow> 'k \<Rightarrow> bool" where
  "sets_key (Get k' now) k = False"
| "sets_key (Set k' v ttl now1 now2) k = (k' = k)"

fun evicts_key :: "('k, 'v) cache \<Rightarrow> ('k, 'v) cache_op \<Rightarrow> 'k \<Rightarrow> bool" where
  "evicts_key c (Get k' now) k = False"
| "evicts_key c (Set k' v ttl now1 now2) k = (k \<in> keys_of c \<and> k \<notin> keys_of (evict c now1))"

fun op_clock :: "('k, 'v) cache_op \<Rightarrow> real list" where
  "op_clock (Get k' now) = [now]"
| "op_clock (Set k' v ttl now1 now2) = [now1, now2]"

fun undisturbed :: "'k \<Rightarrow> real \<Rightarrow> ('k, 'v) cache \<Rightarrow> ('k, 'v) cache_op list \<Rightarrow> bool" where
  "undisturbed k t c [] = True"
| "undisturbed k t c (x # xs) =
     (\<not> sets_key x k \<and> \<not> evicts_key c x k \<and> list_all (\<lambda>n. n \<le> t) (op_clock x)
      \<and> undisturbed k t (apply_cache_op c x) xs)"

text \<open>
  A concrete trace: \<open>n\<close> sets on \<open>n\<close> different keys, the \<open>i\<close>-th at clock reading
  \<open>i\<close> with a ttl of one second, and the dict it builds.
\<close>

definition fill_key :: "nat \<Rightarrow> string" where
  "fill_key i = replicate (Suc i) (CHR ''k'')"

definition fill_ops :: "nat \<Rightarrow> (string, nat) cache_op list" where
  "fill_ops n = map (\<lambda>i. Set (fill_key i) 0 1 (real i) (real i)) [0..<n]"

definition fill_data :: "nat \<Rightarrow> (string \<times> nat \<times> real) list" where
  "fill_data n = map (\<lambda>i. (fill_key i, 0, real i + 1)) [0..<n]"

text \<open>A concrete dict of ten entries.\<close>

definition ten_entries :: "(string \<times> nat \<times> real) list" where
  "ten_entries = [(''a'', 0, 5), (''b'', 1, 3), (''c'', 2, 9), (''d'', 3, 7), (''e'', 4, 6),
                  (''f'', 5, 8), (''g'', 6, 12), (''h'', 7, 11), (''i'', 8, 10), (''j'', 9, 13)]"

section \<open>The per-minute rate gate (Security.check, check_rate_limit)\<close>

text \<open>
  \<open>Security._requests\<close> of data-agent.py and \<open>rate_limits\<close> of price-monitor-agent.py
  are \<open>defaultdict(list)\<close> from sender to the list of the clock readings of the accepted
  requests: a map whose missing keys read as the empty list. Both agents have
  \<open>BUSINESS["rate_limit_per_minute"] = 20\<close> and \<open>BUSINESS["max_input_length"] = 2000\<close>.
  Clock readings are real numbers of seconds, messages are strings of characters with
  codes below 256.
\<close>

definition rate_limit_per_minute :: nat where
  "rate_limit_per_minute = 20"

definition max_input_length :: nat where
  "max_input_length = 2000"

definition rate_limit_msg :: string where
  "rate_limit_msg = ''Rate limit exceeded. Please wait a moment.''"

text \<open>Reading \<open>d[user_id]\<close> in a \<open>defaultdict(list)\<close>.\<close>

definition stamps :: "(string \<rightharpoonup> real list) \<Rightarrow> string \<Rightarrow> real list" where
  "stamps d user_id = (case d user_id of None \<Rightarrow> [] | Some ts \<Rightarrow> ts)"

text \<open>\<open>[t for t in d[user_id] if now - t < 60]\<close>\<close>

definition prune :: "real \<Rightarrow> real list \<Rightarrow> real list" where
  "prune now ts = filter (\<lambda>t. now - t < 60) ts"

text \<open>\<open>check_rate_limit\<close> of price-monitor-agent.py: the error message, or None.\<close>

definition check_rate_limit ::
  "(string \<rightharpoonup> real list) \<Rightarrow> real \<Rightarrow> string \<Rightarrow> string option \<times> (string \<rightharpoonup> real list)" where
  "check_rate_limit rate_limits now user_id =
     (let rl1 = rate_limits(user_id \<mapsto> prune now (stamps rate_limits user_id))
      in if length (stamps rl1 user_id) \<ge> rate_limit_per_minute then (Some rate_limit_msg, rl1)
         else (None, rl1(user_id \<mapsto> stamps rl1 user_id @ [now])))"

text \<open>The whitespace that \<open>str.strip()\<close> removes, among the characters below 256.\<close>

definition py_isspace :: "char \<Rightarrow> bool" where
  "py_isspace ch =
     (let n = (of_char ch :: nat)
      in (9 \<le> n \<and> n \<le> 13) \<or> (28 \<le> n \<and> n \<le> 32) \<or> n = 133 \<or> n = 160)"

definition strip :: "string \<Rightarrow> string" where
  "strip s = rev (dropWhile py_isspace (rev (dropWhile py_isspace s)))"

record security =
  requests :: "string \<rightharpoonup> real list"
  check_count :: int

definition Security :: security where
  "Security = \<lparr>requests = Map.empty, check_count = 0\<rparr>"

text \<open>
  The stale sweep of \<open>Security.check\<close>:
  \<open>stale = [k for k, v in items() if not v or (now - max(v)) > 300]\<close>, then every stale
  key is deleted.
\<close>

definition drop_stale :: "real \<Rightarrow> (string \<rightharpoonup> real list) \<Rightarrow> (string \<rightharpoonup> real list)" where
  "drop_stale now d =
     (\<lambda>k. case d k of
            None \<Rightarrow> None
          | Some v \<Rightarrow> if v = [] \<or> now - Max (set v) > 300 then None else Some v)"

text \<open>
  \<open>Security.check\<close> of data-agent.py returns the pair (clean message, error), one of
  them None; the model also returns the updated object.
\<close>

definition check ::
  "security \<Rightarrow> real \<Rightarrow> string \<Rightarrow> string \<Rightarrow> (string option \<times> string option) \<times> security" where
  "check s now user_id message =
     (let s1 = s\<lparr>requests := (requests s)(user_id \<mapsto> prune now (stamps (requests s) user_id))\<rparr>
      in if length (stamps (requests s1) user_id) \<ge> rate_limit_per_minute
         then ((None, Some rate_limit_msg), s1)
         else
           let s2 = s1\<lparr>requests := (requests s1)(user_id \<mapsto> stamps (requests s1) user_id @ [now])\<rparr>;
               s3 = s2\<lparr>check_count := check_count s2 + 1\<rparr>;
               s4 = (if check_count s3 mod 100 = 0
                     then s3\<lparr>requests := drop_stale now (requests s3)\<rparr> else s3)
           in if message = [] \<or> strip message = [] then ((None, Some ''Empty message.''), s4)
              else if length message > max_input_length
                then ((None, Some ''Message too long (max 2000 chars).''), s4)
              else ((Some (strip message), None), s4))"

text \<open>
  Traces of requests: each event is (sender, clock reading, message). The runs return the
  state after the trace.
\<close>

type_synonym request = "string \<times> real \<times> string"

definition sender_of :: "request \<Rightarrow> string" where
  "sender_of e = fst e"

definition time_of :: "request \<Rightarrow> real" where
  "time_of e = fst (snd e)"

fun run_checks :: "security \<Rightarrow> request list \<Rightarrow> security" where
  "run_checks s [] = s"
| "run_checks s ((u, now, msg) # evs) = run_checks (snd (check s now u msg)) evs"

fun run_rate_limits :: "(string \<rightharpoonup> real list) \<Rightarrow> request list \<Rightarrow> (string \<rightharpoonup> real list)" where
  "run_rate_limits d [] = d"
| "run_rate_limits d ((u, now, msg) # evs) = run_rate_limits (snd (check_rate_limit d now u)) evs"

text \<open>
  The clock readings of the requests of sender \<open>u\<close> in a trace that passed the rate gate
  (the check did not return the rate-limit error), in order: these are the requests for
  which the gate appended a stamp.
\<close>

fun accepted_checks :: "security \<Rightarrow> string \<Rightarrow> request list \<Rightarrow> real list" where
  "accepted_checks s u [] = []"
| "accepted_checks s u ((v, now, msg) # evs) =
     (if v = u \<and> snd (fst (check s now v msg)) \<noteq> Some rate_limit_msg then [now] else [])
     @ accepted_checks (snd (check s now v msg)) u evs"

fun accepted_rate_limits :: "(string \<rightharpoonup> real list) \<Rightarrow> string \<Rightarrow> request list \<Rightarrow> real list" where
  "accepted_rate_limits d u [] = []"
| "accepted_rate_limits d u ((v, now, msg) # evs) =
     (if v = u \<and> fst (check_rate_limit d now v) \<noteq> Some rate_limit_msg then [now] else [])
     @ accepted_rate_limits (snd (check_rate_limit d now v)) u evs"

text \<open>
  What one request of sender \<open>v\<close> at clock reading \<open>now\<close> does to the dict, in both
  agents: the list of \<open>v\<close> is pruned and, below the limit, extended by \<open>now\<close>; the list
  of any other sender is kept, or deleted by the stale sweep when it is empty or more
  than 300 seconds old.
\<close>

definition gate_step ::
  "(string \<rightharpoonup> real list) \<Rightarrow> string \<Rightarrow> real \<Rightarrow> (string \<rightharpoonup> real list) \<Rightarrow> bool" where
  "gate_step d v now d' =
     ((if rate_limit_per_minute \<le> length (prune now (stamps d v))
       then d' v = Some (prune now (stamps d v))
       else d' v = Some (prune now (stamps d v) @ [now]))
      \<and> (\<forall>u. u \<noteq> v \<longrightarrow>
            d' u = d u \<or> (d' u = None \<and> (stamps d u = [] \<or> now - Max (set (stamps d u)) > 300))))"

section \<open>The daily quota (check_daily_quota of tweet-agent.py)\<close>

text \<open>
  \<open>str(n)\<close> for the integers that the messages print.
\<close>

fun str_nat :: "nat \<Rightarrow> string" where
  "str_nat n = (if n < 10 then [''0123456789'' ! n]
                else str_nat (n div 10) @ [''0123456789'' ! (n mod 10)])"

declare str_nat.simps [simp del]

definition str_int :: "int \<Rightarrow> string" where
  "str_int i = (if i < 0 then ''-'' @ str_nat (nat (- i)) else str_nat (nat i))"

text \<open>
  \<open>ctx.storage\<close> is the key-value store of the hosting platform; \<open>_get\<close> and \<open>_set\<close>
  read and write JSON text under a string key. The quota counters are the values under
  the keys \<open>daily_<sender>_<day>\<close>, which only \<open>check_daily_quota\<close> writes, always with
  an integer, so this part of the store is a map from keys to integers; \<open>_get\<close> with a
  default reads a missing key as the default. The store is taken to answer every read and
  write (\<open>_get\<close> and \<open>_set\<close> swallow its exceptions). The day is the string that
  \<open>datetime.utcnow().date().isoformat()\<close> returns, always of the form \<open>YYYY-MM-DD\<close>.
\<close>

type_synonym storage = "string \<rightharpoonup> int"

definition ctx_get :: "storage \<Rightarrow> string \<Rightarrow> int \<Rightarrow> int" where
  "ctx_get st key dflt = (case st key of None \<Rightarrow> dflt | Some v \<Rightarrow> v)"

definition ctx_set :: "storage \<Rightarrow> string \<Rightarrow> int \<Rightarrow> storage" where
  "ctx_set st key v = st(key \<mapsto> v)"

definition free_tweets_per_day :: int where
  "free_tweets_per_day = 3"

definition premium_tweets_per_day :: int where
  "premium_tweets_per_day = 50"

definition quota_key :: "string \<Rightarrow> string \<Rightarrow> string" where
  "quota_key sender today = ''daily_'' @ sender @ ''_'' @ today"

definition free_quota_msg :: "int \<Rightarrow> string" where
  "free_quota_msg limit =
     ''Free tier limit: '' @ str_int limit @ '' tweets/day.'' @ [CHR 0x0A, CHR 0x0A]
     @ ''Hold 1000 $TWEET for '' @ str_int premium_tweets_per_day @ '' tweets/day + threads!''"

definition daily_quota_msg :: "int \<Rightarrow> string" where
  "daily_quota_msg limit =
     ''Daily limit reached ('' @ str_int limit @ ''/day). Reset at midnight UTC.''"

definition check_daily_quota ::
  "storage \<Rightarrow> string \<Rightarrow> string \<Rightarrow> string \<Rightarrow> (bool \<times> string option) \<times> storage" where
  "check_daily_quota st today sender tier =
     (let key = quota_key sender today;
          count = ctx_get st key 0;
          limit = (if tier = ''premium'' then premium_tweets_per_day else free_tweets_per_day)
      in if count \<ge> limit then
           (if tier = ''free'' then ((False, Some (free_quota_msg limit)), st)
            else ((False, Some (daily_quota_msg limit)), st))
         else ((True, None), ctx_set st key (count + 1)))"

text \<open>Traces of quota checks: each event is (sender, day, tier).\<close>

type_synonym quota_event = "string \<times> string \<times> string"

fun run_quota :: "storage \<Rightarrow> quota_event list \<Rightarrow> storage" where
  "run_quota st [] = st"
| "run_quota st ((sender, today, tier) # evs) =
     run_quota (snd (check_daily_quota st today sender tier)) evs"

text \<open>
  The requests of a sender on a day in a trace, and the shape of a trace in which every
  day string has the ten characters of an ISO date and the sender never asks at the
  premium tier on that day.
\<close>

definition requests_on :: "string \<Rightarrow> string \<Rightarrow> quota_event list \<Rightarrow> nat" where
  "requests_on sender today evs =
     length (filter (\<lambda>(s, d, tier). s = sender \<and> d = today) evs)"

definition free_trace :: "string \<Rightarrow> string \<Rightarrow> quota_event list \<Rightarrow> bool" where
  "free_trace sender today evs =
     (length today = 10
      \<and> list_all (\<lambda>(s, d, tier). length d = 10 \<and> \<not> (s = sender \<and> d = today \<and> tier = ''premium'')) evs)"

section \<open>Price alerts (create_alert, remove_alert, check_alerts of trading-agent.py)\<close>

text \<open>
  An alert is the dict that \<open>create_alert\<close> builds. The agent keeps, in \<open>ctx.storage\<close>,
  the list of alerts of each owner under the key \<open>alerts_<owner>\<close> (read with default
  \<open>[]\<close>), the list of owners under \<open>alert_owners\<close> and the statistics under \<open>stats\<close>;
  these keys never coincide, so the store is a record with one field for each. The store
  is taken to answer every read and write. \<open>outbox\<close> collects the alert notifications
  handed to \<open>ctx.send\<close>, in order; a notification is recorded by the fields its text is
  built from. Prices and thresholds are real numbers; reply texts are not modelled.
\<close>

record alert =
  alert_id :: int
  token :: string
  condition :: string
  threshold :: real
  created :: string
  triggered :: bool
  active :: bool

record notification =
  note_to :: string
  note_alert :: int
  note_token :: string
  note_condition :: string
  note_threshold :: real
  note_price :: real

record trading =
  alerts_of :: "string \<Rightarrow> alert list"
  alert_owners :: "string list"
  stats :: "(string \<rightharpoonup> int) option"
  outbox :: "notification list"

definition trading_init :: trading where
  "trading_init = \<lparr>alerts_of = (\<lambda>owner. []), alert_owners = [], stats = None, outbox = []\<rparr>"

definition free_alerts :: int where
  "free_alerts = 1"

definition premium_alerts :: int where
  "premium_alerts = 100"

definition get_alerts :: "trading \<Rightarrow> string \<Rightarrow> alert list" where
  "get_alerts s sender = alerts_of s sender"

definition save_alerts :: "trading \<Rightarrow> string \<Rightarrow> alert list \<Rightarrow> trading" where
  "save_alerts s sender alerts = s\<lparr>alerts_of := (alerts_of s)(sender := alerts)\<rparr>"

definition register_alert_owner :: "trading \<Rightarrow> string \<Rightarrow> trading" where
  "register_alert_owner s sender =
     (if sender \<notin> set (alert_owners s) then s\<lparr>alert_owners := alert_owners s @ [sender]\<rparr>
      else s)"

definition get_stats :: "trading \<Rightarrow> (string \<rightharpoonup> int)" where
  "get_stats s =
     (case stats s of
        None \<Rightarrow> [''alerts_created'' \<mapsto> 0, ''alerts_triggered'' \<mapsto> 0, ''checks_run'' \<mapsto> 0]
      | Some m \<Rightarrow> m)"

definition record_stat :: "trading \<Rightarrow> string \<Rightarrow> trading" where
  "record_stat s key =
     (let m = get_stats s
      in s\<lparr>stats := Some (m(key \<mapsto> (case m key of None \<Rightarrow> 0 | Some n \<Rightarrow> n) + 1))\<rparr>)"

text \<open>\<open>create_alert\<close> returns (success, message); the model returns success and the store.\<close>

definition create_alert ::
  "trading \<Rightarrow> string \<Rightarrow> string \<Rightarrow> string \<Rightarrow> real \<Rightarrow> string \<Rightarrow> string \<Rightarrow> bool \<times> trading" where
  "create_alert s sender token_name cond thresh tier now_iso =
     (let alerts = get_alerts s sender;
          max_alerts = (if tier = ''premium'' then premium_alerts else free_alerts)
      in if int (length alerts) \<ge> max_alerts then (False, s)
         else
           let alert = \<lparr>alert_id = int (length alerts) + 1, token = token_name,
                        condition = cond, threshold = thresh, created = now_iso,
                        triggered = False, active = True\<rparr>;
               s1 = save_alerts s sender (alerts @ [alert]);
               s2 = register_alert_owner s1 sender
           in (True, s2))"

text \<open>
  \<open>remove_alert\<close>: the first alert with the given id that is active is deactivated and
  the list is saved.
\<close>

fun deactivate_first :: "int \<Rightarrow> alert list \<Rightarrow> alert list option" where
  "deactivate_first i [] = None"
| "deactivate_first i (a # as) =
     (if alert_id a = i \<and> active a then Some (a\<lparr>active := False\<rparr> # as)
      else map_option ((#) a) (deactivate_first i as))"

definition remove_alert :: "trading \<Rightarrow> string \<Rightarrow> int \<Rightarrow> bool \<times> trading" where
  "remove_alert s sender i =
     (case deactivate_first i (get_alerts s sender) of
        Some alerts \<Rightarrow> (True, save_alerts s sender alerts)
      | None \<Rightarrow> (False, s))"

text \<open>
  The price feed of one sweep: what \<open>fetcher.get_token_data(alert["token"])\<close> and the
  conversion \<open>float(token_data.get("currentPrice", 0) or 0)\<close> give for an alert of an
  owner: a price, or None when there is no token data or the conversion raises (the
  sweep then goes on to the next alert).
\<close>

type_synonym feed = "string \<Rightarrow> alert \<Rightarrow> real option"

definition condition_met :: "alert \<Rightarrow> real \<Rightarrow> bool" where
  "condition_met a current_price =
     (if condition a = ''above'' \<and> current_price \<ge> threshold a then True
      else if condition a = ''below'' \<and> current_price \<le> threshold a then True
      else False)"

text \<open>
  The body of the loop \<open>for alert in active_alerts\<close>, for the alert at position \<open>i\<close> of
  the owner's list \<open>alerts\<close>, which the loop mutates in place and saves as a whole.
\<close>

definition check_alert_at ::
  "feed \<Rightarrow> string \<Rightarrow> alert list \<times> trading \<Rightarrow> nat \<Rightarrow> alert list \<times> trading" where
  "check_alert_at fd owner st i =
     (let alerts = fst st; s = snd st; alert = alerts ! i
      in case fd owner alert of
           None \<Rightarrow> (alerts, s)
         | Some current_price \<Rightarrow>
             if condition_met alert current_price then
               let alerts' = alerts[i := alert\<lparr>triggered := True\<rparr>];
                   s1 = s\<lparr>alerts_of := (alerts_of s)(owner := alerts')\<rparr>;
                   s2 = record_stat s1 ''alerts_triggered'';
                   s3 = s2\<lparr>outbox := outbox s2 @
                          [\<lparr>note_to = owner, note_alert = alert_id alert, note_token = token alert,
                            note_condition = condition alert, note_threshold = threshold alert,
                            note_price = current_price\<rparr>]\<rparr>
               in (alerts', s3)
             else (alerts, s))"

text \<open>The body of the loop \<open>for owner in owners\<close>.\<close>

definition check_owner :: "feed \<Rightarrow> trading \<Rightarrow> string \<Rightarrow> trading" where
  "check_owner fd s owner =
     (let alerts = alerts_of s owner;
          active_alerts = filter (\<lambda>i. active (alerts ! i) \<and> \<not> triggered (alerts ! i))
                                 [0..<length alerts]
      in if active_alerts = [] then s
         else snd (foldl (check_alert_at fd owner) (alerts, s) active_alerts))"

definition check_alerts :: "feed \<Rightarrow> trading \<Rightarrow> trading" where
  "check_alerts fd s =
     (let owners = alert_owners s
      in if owners = [] then s
         else foldl (check_owner fd) (record_stat s ''checks_run'') owners)"

text \<open>Traces of the agent: sweeps, and the alert commands of the users.\<close>

datatype tevent =
    Sweep feed
  | Create string string string real string string
  | Remove string int

fun apply_tevent :: "trading \<Rightarrow> tevent \<Rightarrow> trading" where
  "apply_tevent s (Sweep fd) = check_alerts fd s"
| "apply_tevent s (Create sender token_name cond thresh tier now_iso) =
     snd (create_alert s sender token_name cond thresh tier now_iso)"
| "apply_tevent s (Remove sender i) = snd (remove_alert s sender i)"

definition run_trading :: "trading \<Rightarrow> tevent list \<Rightarrow> trading" where
  "run_trading s evs = foldl apply_tevent s evs"

text \<open>The number of notifications sent to an owner for the alert with a given id.\<close>

definition notes_for :: "string \<Rightarrow> int \<Rightarrow> notification list \<Rightarrow> nat" where
  "notes_for owner i out = length (filter (\<lambda>n. note_to n = owner \<and> note_alert n = i) out)"

text \<open>
  The invariant of the store: owners are listed once, every owner with alerts is listed,
  the alert at position \<open>j\<close> has id \<open>j + 1\<close>, and the alert with id \<open>i\<close> of an owner has
  one notification if its \<open>triggered\<close> flag is set and none otherwise (none either for an
  id that no alert has).
\<close>

definition fired :: "trading \<Rightarrow> string \<Rightarrow> int \<Rightarrow> bool" where
  "fired s owner i =
     (0 < i \<and> i \<le> int (length (alerts_of s owner)) \<and> triggered (alerts_of s owner ! nat (i - 1)))"

definition ids_ok :: "alert list \<Rightarrow> bool" where
  "ids_ok alerts = (map alert_id alerts = map (\<lambda>j. int j + 1) [0..<length alerts])"

definition trading_inv :: "trading \<Rightarrow> bool" where
  "trading_inv s =
     (distinct (alert_owners s)
      \<and> (\<forall>owner. alerts_of s owner \<noteq> [] \<longrightarrow> owner \<in> set (alert_owners s))
      \<and> (\<forall>owner. ids_ok (alerts_of s owner))
      \<and> (\<forall>owner i. notes_for owner i (outbox s) = (if fired s owner i then 1 else 0)))"

text \<open>
  An alert fires in a sweep with feed \<open>fd\<close> when it is active and not yet triggered, the
  feed has a price for it, and the price meets its condition.
\<close>

definition fires :: "feed \<Rightarrow> string \<Rightarrow> alert \<Rightarrow> bool" where
  "fires fd owner a =
     (active a \<and> \<not> triggered a
      \<and> (case fd owner a of None \<Rightarrow> False | Some p \<Rightarrow> condition_met a p))"

text \<open>The feed that reports the same price for every alert.\<close>

definition const_feed :: "real \<Rightarrow> feed" where
  "const_feed p = (\<lambda>owner a. Some p)"

text \<open>The feed has a price for the alert that meets its condition.\<close>

definition hitp :: "feed \<Rightarrow> string \<Rightarrow> alert \<Rightarrow> bool" where
  "hitp fd owner a = (case fd owner a of None \<Rightarrow> False | Some p \<Rightarrow> condition_met a p)"

section \<open>Token scoring (normalize_val, score_token of genesis/analyst.py)\<close>

text \<open>
  A token is the dict decoded from the JSON of the launch platform: a map from field
  names to JSON values. Python floats are taken as real numbers. What the Python library
  does with strings is a parameter of the model: \<open>str_to_int\<close> and \<open>str_to_float\<close> are
  \<open>int(s)\<close> and \<open>float(s)\<close> (None when they raise ValueError), and \<open>parse_iso\<close> is
  \<open>datetime.fromisoformat(s).replace(tzinfo=None)\<close> as a count of microseconds (None
  when it raises). \<open>datetime.now()\<close> is an explicit argument, a count of microseconds on
  the same scale.
\<close>

datatype jv =
    JNull
  | JBool bool
  | JInt int
  | JReal real
  | JStr string
  | JArr "jv list"
  | JObj "(string \<times> jv) list"

datatype py_exn = TypeError | ValueError | AttributeError | RequestException | JSONDecodeError

record conv =
  str_to_int :: "string \<Rightarrow> int option"
  str_to_float :: "string \<Rightarrow> real option"
  parse_iso :: "string \<Rightarrow> int option"

text \<open>\<open>d.get(key, default)\<close>\<close>

definition dict_get :: "(string \<rightharpoonup> jv) \<Rightarrow> string \<Rightarrow> jv \<Rightarrow> jv" where
  "dict_get d key dflt = (case d key of None \<Rightarrow> dflt | Some v \<Rightarrow> v)"

text \<open>The truth value of a JSON value in an \<open>if\<close>.\<close>

fun truthy :: "jv \<Rightarrow> bool" where
  "truthy JNull = False"
| "truthy (JBool b) = b"
| "truthy (JInt n) = (n \<noteq> 0)"
| "truthy (JReal r) = (r \<noteq> 0)"
| "truthy (JStr s) = (s \<noteq> [])"
| "truthy (JArr xs) = (xs \<noteq> [])"
| "truthy (JObj kvs) = (kvs \<noteq> [])"

text \<open>\<open>int(v)\<close> truncates a float towards zero; \<open>int\<close> and \<open>float\<close> raise on other values.\<close>

fun py_int :: "conv \<Rightarrow> jv \<Rightarrow> py_exn + int" where
  "py_int cv (JInt n) = Inr n"
| "py_int cv (JReal r) = Inr (if 0 \<le> r then \<lfloor>r\<rfloor> else \<lceil>r\<rceil>)"
| "py_int cv (JBool b) = Inr (if b then 1 else 0)"
| "py_int cv (JStr s) = (case str_to_int cv s of None \<Rightarrow> Inl ValueError | Some n \<Rightarrow> Inr n)"
| "py_int cv v = Inl TypeError"

fun py_float :: "conv \<Rightarrow> jv \<Rightarrow> py_exn + real" where
  "py_float cv (JInt n) = Inr (real_of_int n)"
| "py_float cv (JReal r) = Inr r"
| "py_float cv (JBool b) = Inr (if b then 1 else 0)"
| "py_float cv (JStr s) = (case str_to_float cv s of None \<Rightarrow> Inl ValueError | Some r \<Rightarrow> Inr r)"
| "py_float cv v = Inl TypeError"

text \<open>
  \<open>round(x, 1)\<close> on the real number \<open>x\<close>: to the nearest tenth, a tie to the even one.
  Python rounds the binary float and computes the products and the sum in binary floats,
  so the model gives the total of the code where these floats are the real numbers they
  stand for (as for the scores 0 and 100 and the totals 75 and 85), and can differ
  in the last digit where a product is not a float (0.5 * 0.30 is just below 0.15 in
  floats and rounds to 0.1, the real number 0.15 is a tie and rounds to 0.2). The
  statements about \<open>score_token\<close> below compare two calls on the same metrics, or
  evaluate it where floats are exact.
\<close>

definition round_half_even :: "real \<Rightarrow> int" where
  "round_half_even x =
     (let f = \<lfloor>x\<rfloor>; d = x - real_of_int f
      in if d < 1 / 2 then f else if 1 / 2 < d then f + 1 else if even f then f else f + 1)"

definition round1 :: "real \<Rightarrow> real" where
  "round1 x = real_of_int (round_half_even (x * 10)) / 10"

definition normalize_val :: "real \<Rightarrow> real \<Rightarrow> real \<Rightarrow> real" where
  "normalize_val val min_val max_val =
     (if max_val \<le> min_val then 50
      else max 0 (min 100 ((val - min_val) / (max_val - min_val) * 100)))"

text \<open>\<open>created.replace("Z", "+00:00")\<close>\<close>

definition replace_Z :: "string \<Rightarrow> string" where
  "replace_Z s = concat (map (\<lambda>c. if c = CHR ''Z'' then ''+00:00'' else [c]) s)"

text \<open>
  The block that computes \<open>age_days\<close>: 0 unless \<open>created\<close> is true in the \<open>if\<close>; inside
  the \<open>try\<close>, a value that is not a string has no \<open>replace\<close> and a string that does not
  parse raises, and both leave 0; otherwise the \<open>days\<close> of the difference of the two
  datetimes, a division that rounds down.
\<close>

definition age_days :: "conv \<Rightarrow> int \<Rightarrow> (string \<rightharpoonup> jv) \<Rightarrow> int" where
  "age_days cv now tk =
     (let created = dict_get tk ''createdAt'' (dict_get tk ''created_at'' (JStr ''''))
      in if truthy created then
           (case created of
              JStr s \<Rightarrow>
                (case parse_iso cv (replace_Z s) of
                   None \<Rightarrow> 0
                 | Some created_dt \<Rightarrow> (now - created_dt) div 86400000000)
            | _ \<Rightarrow> 0)
         else 0)"

record scores =
  sc_holders :: real
  sc_volume :: real
  sc_liquidity :: real
  sc_price_stability :: real
  sc_age :: real

record score =
  name :: jv
  symbol :: jv
  address :: jv
  scores :: scores
  total :: real
  grade :: string
  holders :: int
  volume :: real
  liquidity :: real

definition letter_grade :: "real \<Rightarrow> string" where
  "letter_grade weighted =
     (if weighted \<ge> 80 then ''A''
      else if weighted \<ge> 60 then ''B''
      else if weighted \<ge> 40 then ''C''
      else if weighted \<ge> 20 then ''D''
      else ''F'')"

text \<open>
  \<open>score_token\<close>; the conversions at its head are outside any \<open>try\<close>, so their exception
  is the result.
\<close>

definition score_token :: "conv \<Rightarrow> int \<Rightarrow> (string \<rightharpoonup> jv) \<Rightarrow> py_exn + score" where
  "score_token cv now tk =
     (case py_int cv (dict_get tk ''holders'' (dict_get tk ''holderCount'' (JInt 0))) of
        Inl e \<Rightarrow> Inl e
      | Inr hold \<Rightarrow>
     (case py_float cv (dict_get tk ''volume24h'' (dict_get tk ''volume'' (JInt 0))) of
        Inl e \<Rightarrow> Inl e
      | Inr vol \<Rightarrow>
     (case py_float cv (dict_get tk ''liquidity'' (dict_get tk ''totalLiquidity'' (JInt 0))) of
        Inl e \<Rightarrow> Inl e
      | Inr liq \<Rightarrow>
     (case py_float cv (dict_get tk ''price'' (dict_get tk ''currentPrice'' (JInt 0))) of
        Inl e \<Rightarrow> Inl e
      | Inr price \<Rightarrow>
        let holder_score = normalize_val (real_of_int hold) 0 200;
            volume_score = normalize_val vol 0 10000;
            liquidity_score = normalize_val liq 0 30000;
            stability_score = (if price > 0 then 50 else 0);
            age_score = normalize_val (real_of_int (age_days cv now tk)) 0 30;
            sc = \<lparr>sc_holders = round1 holder_score, sc_volume = round1 volume_score,
                  sc_liquidity = round1 liquidity_score,
                  sc_price_stability = round1 stability_score, sc_age = round1 age_score\<rparr>;
            weighted = 0 + sc_holders sc * (30 / 100) + sc_volume sc * (25 / 100)
                         + sc_liquidity sc * (20 / 100) + sc_price_stability sc * (15 / 100)
                         + sc_age sc * (10 / 100)
        in Inr \<lparr>name = dict_get tk ''name'' (JStr ''Unknown''),
                 symbol = dict_get tk ''symbol'' (JStr ''???''),
                 address = dict_get tk ''address'' (dict_get tk ''tokenAddress'' (JStr '''')),
                 scores = sc, total = round1 weighted, grade = letter_grade weighted,
                 holders = hold, volume = vol, liquidity = liq\<rparr>))))"

text \<open>The grade and the total of a result.\<close>

definition grade_total :: "py_exn + score \<Rightarrow> (string \<times> real) option" where
  "grade_total r = (case r of Inl e \<Rightarrow> None | Inr sc \<Rightarrow> Some (grade sc, total sc))"

text \<open>
  A concrete token, created on 2026-01-01 at 00:00:00, which is 1767225600 seconds
  after the start of 1970, and conversions that know this one string.
\<close>

definition demo_conv :: conv where
  "demo_conv =
     \<lparr>str_to_int = (\<lambda>s. None), str_to_float = (\<lambda>s. None),
      parse_iso = (\<lambda>s. if s = ''2026-01-01T00:00:00'' then Some 1767225600000000 else None)\<rparr>"

definition demo_token :: "string \<rightharpoonup> jv" where
  "demo_token =
     [''name'' \<mapsto> JStr ''Demo'', ''holders'' \<mapsto> JInt 200, ''volume24h'' \<mapsto> JInt 10000,
      ''liquidity'' \<mapsto> JReal 30000, ''price'' \<mapsto> JInt 0,
      ''createdAt'' \<mapsto> JStr ''2026-01-01T00:00:00'']"

section \<open>Upstream failures (check_token_holdings, DataFetcher.get_all_tokens of data-agent.py)\<close>

text \<open>
  The outcome of \<open>requests.get\<close> is an input of the model: the call raises (timeout,
  connection error), or returns a response with a status code and a body, where the body
  is the JSON value that \<open>r.json()\<close> decodes, or None when \<open>r.json()\<close> raises. The cache
  is the agent's \<open>Cache\<close> above, holding JSON values; its clock readings are arguments.
  Both functions return a value or raise, so their result is a sum, with the exception
  on the left.
\<close>

datatype http_outcome = RequestRaised | Response int "jv option"

definition premium_token_threshold :: int where
  "premium_token_threshold = 1000"

text \<open>\<open>data.get(key, default)\<close>, which only a dict has; for a repeated key the last value.\<close>

fun jv_get :: "jv \<Rightarrow> string \<Rightarrow> jv \<Rightarrow> py_exn + jv" where
  "jv_get (JObj kvs) key dflt = Inr (case map_of (rev kvs) key of None \<Rightarrow> dflt | Some v \<Rightarrow> v)"
| "jv_get v key dflt = Inl AttributeError"

text \<open>\<open>balance >= n\<close> for an integer \<open>n\<close>: numbers compare, anything else raises TypeError.\<close>

fun py_ge_int :: "jv \<Rightarrow> int \<Rightarrow> py_exn + bool" where
  "py_ge_int (JInt m) n = Inr (m \<ge> n)"
| "py_ge_int (JReal r) n = Inr (r \<ge> real_of_int n)"
| "py_ge_int (JBool b) n = Inr ((if b then 1 else 0) \<ge> n)"
| "py_ge_int v n = Inl TypeError"

text \<open>\<open>cached is not None\<close>, for what \<open>cache.get\<close> returned: a stored null is None too.\<close>

definition not_None :: "jv option \<Rightarrow> bool" where
  "not_None cached = (case cached of None \<Rightarrow> False | Some v \<Rightarrow> v \<noteq> JNull)"

text \<open>
  The body of the \<open>try\<close> of \<open>check_token_holdings\<close>: it raises, or returns a tier and the
  updated cache, or (Inr None) falls through to the code after the \<open>try\<close>.
\<close>

definition holdings_request ::
  "(string, jv) cache \<Rightarrow> string \<Rightarrow> http_outcome \<Rightarrow> real \<Rightarrow> real
     \<Rightarrow> py_exn + (jv \<times> (string, jv) cache) option" where
  "holdings_request c user_address http now1 now2 =
     (case http of
        RequestRaised \<Rightarrow> Inl RequestException
      | Response status_code body \<Rightarrow>
          if status_code = 200 then
            (case body of
               None \<Rightarrow> Inl JSONDecodeError
             | Some js \<Rightarrow>
                 (case jv_get js ''balance'' (JInt 0) of
                    Inl e \<Rightarrow> Inl e
                  | Inr balance \<Rightarrow>
                      (case py_ge_int balance premium_token_threshold of
                         Inl e \<Rightarrow> Inl e
                       | Inr enough \<Rightarrow>
                           let tier = JStr (if enough then ''premium'' else ''free'')
                           in Inr (Some (tier,
                                cache_set c (''tier:'' @ user_address) tier 300 now1 now2)))))
          else Inr None)"

definition check_token_holdings ::
  "string \<Rightarrow> (string, jv) cache \<Rightarrow> string \<Rightarrow> real \<Rightarrow> http_outcome \<Rightarrow> real \<Rightarrow> real
     \<Rightarrow> py_exn + jv \<times> (string, jv) cache" where
  "check_token_holdings token_address c user_address now http now1 now2 =
     (if token_address = [] then Inr (JStr ''free'', c)
      else
        let cached = fst (cache_get c (''tier:'' @ user_address) now);
            c1 = snd (cache_get c (''tier:'' @ user_address) now)
        in if not_None cached then Inr (the cached, c1)
           else
             (case holdings_request c1 user_address http now1 now2 of
                Inr (Some res) \<Rightarrow> Inr res
              | Inr None \<Rightarrow> Inr (JStr ''free'', c1)
              | Inl e \<Rightarrow> Inr (JStr ''free'', c1)))"

text \<open>The body of the \<open>try\<close> of \<open>get_all_tokens\<close>.\<close>

definition tokens_request ::
  "(string, jv) cache \<Rightarrow> http_outcome \<Rightarrow> real \<Rightarrow> real
     \<Rightarrow> py_exn + (jv \<times> (string, jv) cache) option" where
  "tokens_request c http now1 now2 =
     (case http of
        RequestRaised \<Rightarrow> Inl RequestException
      | Response status_code body \<Rightarrow>
          if status_code = 200 then
            (case body of
               None \<Rightarrow> Inl JSONDecodeError
             | Some js \<Rightarrow>
                 (case jv_get js ''success'' JNull of
                    Inl e \<Rightarrow> Inl e
                  | Inr success \<Rightarrow>
                      (case (if truthy success then jv_get js ''data'' (JArr [])
                             else Inr (JArr [])) of
                         Inl e \<Rightarrow> Inl e
                       | Inr tokens \<Rightarrow>
                           Inr (Some (tokens, cache_set c ''all_tokens'' tokens 120 now1 now2)))))
          else Inr None)"

definition get_all_tokens ::
  "(string, jv) cache \<Rightarrow> real \<Rightarrow> http_outcome \<Rightarrow> real \<Rightarrow> real
     \<Rightarrow> py_exn + jv \<times> (string, jv) cache" where
  "get_all_tokens c now http now1 now2 =
     (let cached = fst (cache_get c ''all_tokens'' now);
          c1 = snd (cache_get c ''all_tokens'' now)
      in if not_None cached then Inr (the cached, c1)
         else
           (case tokens_request c1 http now1 now2 of
              Inr (Some res) \<Rightarrow> Inr res
            | Inr None \<Rightarrow> Inr (JArr [], c1)
            | Inl e \<Rightarrow> Inr (JArr [], c1)))"

text \<open>
  The kinds of outcome: the call failed (it raised, or the status is not 200, or the
  body is not JSON); the body is unsuccessful (it is not an object, or its \<open>success\<close>
  is missing or false); the body carries a balance at or above the premium threshold.
\<close>

fun upstream_failed :: "http_outcome \<Rightarrow> bool" where
  "upstream_failed RequestRaised = True"
| "upstream_failed (Response status_code None) = True"
| "upstream_failed (Response status_code (Some js)) = (status_code \<noteq> 200)"

fun unsuccessful_body :: "http_outcome \<Rightarrow> bool" where
  "unsuccessful_body (Response status_code (Some js)) =
     (case jv_get js ''success'' JNull of Inl e \<Rightarrow> True | Inr success \<Rightarrow> \<not> truthy success)"
| "unsuccessful_body http = False"

fun premium_balance :: "http_outcome \<Rightarrow> bool" where
  "premium_balance (Response status_code (Some js)) =
     (status_code = 200
      \<and> (case jv_get js ''balance'' (JInt 0) of
            Inl e \<Rightarrow> False
          | Inr balance \<Rightarrow> py_ge_int balance premium_token_threshold = Inr True))"
| "premium_balance http = False"

text \<open>The tier or the token list that a call returned.\<close>

definition returned :: "py_exn + jv \<times> (string, jv) cache \<Rightarrow> jv option" where
  "returned r = (case r of Inl e \<Rightarrow> None | Inr res \<Rightarrow> Some (fst res))"

section \<open>The welcome gift (the claim branch of handle_chat in gifter-agent.py)\<close>

text \<open>
  The agent keeps in \<open>ctx.storage\<close> the dict \<open>welcome_claims\<close> from sender to the time
  of its claim, and the number of gifts of each day under the key \<open>daily_<day>\<close>; the
  model has one map for each, and takes the store to answer every read and write. The
  chain is the list of the transfers that were broadcast, in order. The replies handed to
  \<open>ctx.send\<close> are recorded by their template and its arguments. What the outside world
  decides in one call is the environment of the call: whether the treasury balance
  suffices, whether the treasury wallet is configured, what the chain does with each
  transfer (it accepts it and returns a transaction hash, or any step of building,
  signing and sending raises), whether \<open>ctx.send\<close> delivers the reply or raises, and
  the readings of the clock. \<open>reply\<close> awaits \<open>ctx.send\<close> without a handler, so a send
  that raises ends \<open>handle_chat\<close> at that statement: the model returns how the handler
  ended together with the state it leaves.
\<close>

datatype transfer = FetTransfer string int | BnbTransfer string real

datatype tx_outcome = Broadcast string | ChainError string

datatype tx_result = TxSuccess string | TxFailure string

datatype handler_end = Returned | Raised

datatype reply =
    AlreadyClaimed
  | NeedAddress
  | DailyLimit
  | TreasuryLow
  | FetFailed string
  | BnbFailed string string
  | Welcome string string string

record gifter =
  welcome_claims :: "string \<rightharpoonup> string"
  daily_claims :: "string \<rightharpoonup> int"
  ledger :: "transfer list"
  sent :: "(string \<times> reply \<times> bool) list"

record claim_env =
  treasury_ok :: bool
  wallet_ok :: bool
  fet_chain :: tx_outcome
  bnb_chain :: tx_outcome
  reply_sent :: bool
  today_check :: string
  today_incr :: string
  claim_time :: string

definition WELCOME_FET :: int where
  "WELCOME_FET = 150"

definition WELCOME_BNB :: real where
  "WELCOME_BNB = 2 / 10"

definition MAX_CLAIMS_PER_DAY :: int where
  "MAX_CLAIMS_PER_DAY = 100"

text \<open>\<open>sender.startswith("agent1q") and len(sender) > 20\<close>\<close>

definition verify_agentverse_agent :: "string \<Rightarrow> bool" where
  "verify_agentverse_agent sender = (take 7 sender = ''agent1q'' \<and> length sender > 20)"

definition has_claimed_welcome :: "gifter \<Rightarrow> string \<Rightarrow> bool" where
  "has_claimed_welcome s sender = (sender \<in> dom (welcome_claims s))"

definition record_welcome_claim :: "gifter \<Rightarrow> string \<Rightarrow> string \<Rightarrow> gifter" where
  "record_welcome_claim s sender utcnow =
     s\<lparr>welcome_claims := (welcome_claims s)(sender \<mapsto> utcnow)\<rparr>"

definition get_daily_claim_count :: "gifter \<Rightarrow> string \<Rightarrow> int" where
  "get_daily_claim_count s today = (case daily_claims s today of None \<Rightarrow> 0 | Some n \<Rightarrow> n)"

definition increment_daily_claims :: "gifter \<Rightarrow> string \<Rightarrow> gifter" where
  "increment_daily_claims s today =
     s\<lparr>daily_claims := (daily_claims s)(today \<mapsto>
          (case daily_claims s today of None \<Rightarrow> 0 | Some n \<Rightarrow> n) + 1)\<rparr>"

text \<open>
  \<open>re.search(r"(0x[a-fA-F0-9]{40})", text)\<close>: the first place where \<open>0x\<close> and forty
  hexadecimal digits stand.
\<close>

definition is_hex :: "char \<Rightarrow> bool" where
  "is_hex ch = (ch \<in> set ''0123456789abcdefABCDEF'')"

definition evm_at :: "string \<Rightarrow> bool" where
  "evm_at s = (take 2 s = ''0x'' \<and> 42 \<le> length s \<and> list_all is_hex (take 40 (drop 2 s)))"

fun find_evm :: "string \<Rightarrow> string option" where
  "find_evm [] = None"
| "find_evm (ch # s) = (if evm_at (ch # s) then Some (take 42 (ch # s)) else find_evm s)"

text \<open>
  \<open>send_fet\<close> and \<open>send_bnb\<close>: without a wallet or with a malformed recipient nothing is
  sent; otherwise the transfer is on the chain exactly when no step raised.
\<close>

definition send_fet :: "claim_env \<Rightarrow> gifter \<Rightarrow> string \<Rightarrow> int \<Rightarrow> tx_result \<times> gifter" where
  "send_fet env s recipient amount =
     (if \<not> wallet_ok env then (TxFailure ''Treasury wallet not configured'', s)
      else if \<not> (take 2 recipient = ''0x'') \<or> length recipient \<noteq> 42
        then (TxFailure ''Invalid recipient address'', s)
      else (case fet_chain env of
              Broadcast tx_hash \<Rightarrow>
                (TxSuccess tx_hash, s\<lparr>ledger := ledger s @ [FetTransfer recipient amount]\<rparr>)
            | ChainError e \<Rightarrow> (TxFailure e, s)))"

definition send_bnb :: "claim_env \<Rightarrow> gifter \<Rightarrow> string \<Rightarrow> real \<Rightarrow> tx_result \<times> gifter" where
  "send_bnb env s recipient amount =
     (if \<not> wallet_ok env then (TxFailure ''Treasury wallet not configured'', s)
      else if \<not> (take 2 recipient = ''0x'') \<or> length recipient \<noteq> 42
        then (TxFailure ''Invalid recipient address'', s)
      else (case bnb_chain env of
              Broadcast tx_hash \<Rightarrow>
                (TxSuccess tx_hash, s\<lparr>ledger := ledger s @ [BnbTransfer recipient amount]\<rparr>)
            | ChainError e \<Rightarrow> (TxFailure e, s)))"

text \<open>\<open>reply\<close>: the message is handed over, or \<open>ctx.send\<close> raises and nothing is sent.\<close>

definition send_reply ::
  "claim_env \<Rightarrow> gifter \<Rightarrow> string \<Rightarrow> reply \<Rightarrow> bool \<Rightarrow> handler_end \<times> gifter" where
  "send_reply env s sender r end_session =
     (if reply_sent env then (Returned, s\<lparr>sent := sent s @ [(sender, r, end_session)]\<rparr>)
      else (Raised, s))"

text \<open>
  The branch \<open>if intent == "claim_welcome":\<close> of \<open>handle_chat\<close>. When the BNB transfer
  fails the reply comes first and the two writes follow it; when both transfers succeed
  the two writes come first.
\<close>

definition claim_welcome ::
  "gifter \<Rightarrow> string \<Rightarrow> string \<Rightarrow> claim_env \<Rightarrow> handler_end \<times> gifter" where
  "claim_welcome s sender text env =
     (if has_claimed_welcome s sender then send_reply env s sender AlreadyClaimed True
      else
        (case find_evm text of
           None \<Rightarrow> send_reply env s sender NeedAddress False
         | Some evm_address \<Rightarrow>
             if get_daily_claim_count s (today_check env) \<ge> MAX_CLAIMS_PER_DAY
               then send_reply env s sender DailyLimit True
             else if \<not> treasury_ok env then send_reply env s sender TreasuryLow True
             else
               (case send_fet env s evm_address WELCOME_FET of
                  (TxFailure e, s1) \<Rightarrow> send_reply env s1 sender (FetFailed e) True
                | (TxSuccess fet_hash, s1) \<Rightarrow>
                    (case send_bnb env s1 evm_address WELCOME_BNB of
                       (TxFailure e, s2) \<Rightarrow>
                         (case send_reply env s2 sender (BnbFailed e (take 16 fet_hash)) True of
                            (Raised, s3) \<Rightarrow> (Raised, s3)
                          | (Returned, s3) \<Rightarrow>
                              let s4 = record_welcome_claim s3 sender (claim_time env)
                              in (Returned, increment_daily_claims s4 (today_incr env)))
                     | (TxSuccess bnb_hash, s2) \<Rightarrow>
                         let s3 = record_welcome_claim s2 sender (claim_time env);
                             s4 = increment_daily_claims s3 (today_incr env)
                         in send_reply env s4 sender
                              (Welcome evm_address (take 16 fet_hash) (take 16 bnb_hash)) True))))"

text \<open>
  Traces of claim attempts: each is (sender, text, environment); the state a handler
  leaves is the state the next one finds, however the handler ended.
\<close>

fun run_claims :: "gifter \<Rightarrow> (string \<times> string \<times> claim_env) list \<Rightarrow> gifter" where
  "run_claims s [] = s"
| "run_claims s ((sender, text, env) # evs) = run_claims (snd (claim_welcome s sender text env)) evs"

text \<open>
  A fresh agent, a sender with an Agentverse address, and three environments of a claim:
  the chain takes the FET and refuses the BNB and the reply is delivered; the same with a
  send that raises; and a claim in which both transfers and the send succeed.
\<close>

definition gifter_init :: gifter where
  "gifter_init = \<lparr>welcome_claims = Map.empty, daily_claims = Map.empty, ledger = [], sent = []\<rparr>"

definition demo_env :: claim_env where
  "demo_env =
     \<lparr>treasury_ok = True, wallet_ok = True,
      fet_chain = Broadcast ''9f3a5c7e1b2d4f60718293a4b5c6d7e8'',
      bnb_chain = ChainError ''insufficient funds for gas'',
      reply_sent = True,
      today_check = ''2026-01-01'', today_incr = ''2026-01-01'',
      claim_time = ''2026-01-01T10:00:00''\<rparr>"

definition demo_env_raise :: claim_env where
  "demo_env_raise = demo_env\<lparr>reply_sent := False\<rparr>"

definition demo_env_ok :: claim_env where
  "demo_env_ok =
     demo_env\<lparr>fet_chain := Broadcast ''1c2d3e4f5a6b7c8d9e0f112233445566'',
              bnb_chain := Broadcast ''77889900aabbccddeeff001122334455'',
              claim_time := ''2026-01-01T10:05:00''\<rparr>"

definition demo_wallet :: string where
  "demo_wallet = ''0x'' @ replicate 40 (CHR ''a'')"

definition demo_sender :: string where
  "demo_sender = ''agent1q'' @ replicate 58 (CHR ''x'')"

section \<open>Properties of the TTL cache\<close>

subsection \<open>Basic facts about the dict operations\<close>

lemma del_keys_filter: "del_keys ks d = filter (\<lambda>p. fst p \<notin> set ks) d"
proof (induction ks arbitrary: d)
  case Nil
  then show ?case by (simp add: del_keys_def)
next
  case (Cons k ks)
  have "del_keys (k # ks) d = del_keys ks (AList.delete k d)"
    by (simp add: del_keys_def)
  also have "\<dots> = filter (\<lambda>p. fst p \<notin> set ks) (AList.delete k d)"
    by (rule Cons.IH)
  also have "\<dots> = filter (\<lambda>p. fst p \<notin> set (k # ks)) d"
    by (auto simp: AList.delete_eq intro: filter_cong)
  finally show ?case .
qed

lemma keys_del_keys: "fst ` set (del_keys ks d) \<subseteq> fst ` set d"
  by (auto simp: del_keys_filter)

lemma keys_evict: "keys_of (evict c now) \<subseteq> keys_of c"
  by (auto simp: keys_of_def evict_def Let_def del_keys_filter)

lemma max_size_evict [simp]: "max_size (evict c now) = max_size c"
  by (simp add: evict_def Let_def)

lemma keys_cache_set: "keys_of (cache_set c k v ttl n1 n2) \<subseteq> insert k (keys_of c)"
  using keys_evict [of c n1]
  by (auto simp: cache_set_def Let_def keys_of_def AList.dom_update)

lemma keys_cache_get: "keys_of (snd (cache_get c k now)) \<subseteq> keys_of c"
  by (auto simp: cache_get_def keys_of_def AList.delete_eq split: option.splits)

lemma keys_run_cache_ops: "keys_of (run_cache_ops c xs) \<subseteq> keys_of c \<union> set_keys xs"
proof (induction xs arbitrary: c)
  case Nil
  then show ?case by simp
next
  case (Cons x xs)
  show ?case
  proof (cases x)
    case (Get k now)
    then show ?thesis
      using Cons.IH [of "snd (cache_get c k now)"] keys_cache_get [of c k now] by auto
  next
    case (Set k v ttl n1 n2)
    then show ?thesis
      using Cons.IH [of "cache_set c k v ttl n1 n2"] keys_cache_set [of c k v ttl n1 n2] by auto
  qed
qed

lemma cache_get_absent: "k \<notin> keys_of c \<Longrightarrow> fst (cache_get c k now) = None"
proof -
  assume "k \<notin> keys_of c"
  then have "map_of (data c) k = None"
    by (simp add: keys_of_def map_of_eq_None_iff)
  then show ?thesis by (simp add: cache_get_def)
qed

lemma cache_get_expired:
  "map_of (data c) k = Some (v, e) \<Longrightarrow> e \<le> now \<Longrightarrow> fst (cache_get c k now) = None"
  by (simp add: cache_get_def)

lemma cache_get_SomeD:
  "fst (cache_get c k now) = Some v \<Longrightarrow> \<exists>e. map_of (data c) k = Some (v, e) \<and> now < e"
  by (auto simp: cache_get_def split: option.splits if_splits)

text \<open>
  C1. In every cache state reached from an empty cache by any sequence of set and get
  operations, a get on a key that was never set returns absent, a get on a key whose
  stored expiry time is not after the clock reading of the call returns absent, and a get
  that returns a value returns one stored with an expiry time still in the future.
\<close>

theorem cache_get_never_stale:
  fixes xs :: "('k, 'v) cache_op list" and m :: int
  shows "(k \<notin> set_keys xs \<longrightarrow> fst (cache_get (run_cache_ops (Cache m) xs) k now) = None)
       \<and> (\<forall>v e. map_of (data (run_cache_ops (Cache m) xs)) k = Some (v, e) \<and> e \<le> now
              \<longrightarrow> fst (cache_get (run_cache_ops (Cache m) xs) k now) = None)
       \<and> (\<forall>v. fst (cache_get (run_cache_ops (Cache m) xs) k now) = Some v \<longrightarrow>
              (\<exists>e. (k, v, e) \<in> set (data (run_cache_ops (Cache m) xs))
                 \<and> map_of (data (run_cache_ops (Cache m) xs)) k = Some (v, e) \<and> now < e))"
proof -
  define c :: "('k, 'v) cache" where "c = run_cache_ops (Cache m) xs"
  have 1: "fst (cache_get c k now) = None" if "k \<notin> set_keys xs"
  proof -
    have "keys_of c \<subseteq> keys_of (Cache m :: ('k, 'v) cache) \<union> set_keys xs"
      unfolding c_def by (rule keys_run_cache_ops)
    with that have "k \<notin> keys_of c" by (auto simp: keys_of_def Cache_def)
    then show ?thesis by (rule cache_get_absent)
  qed
  have 2: "fst (cache_get c k now) = None" if "map_of (data c) k = Some (v, e) \<and> e \<le> now" for v e
    using that by (simp add: cache_get_expired)
  have 3: "\<exists>e. (k, v, e) \<in> set (data c) \<and> map_of (data c) k = Some (v, e) \<and> now < e"
    if "fst (cache_get c k now) = Some v" for v
  proof -
    from that obtain e where e: "map_of (data c) k = Some (v, e)" "now < e"
      by (auto dest: cache_get_SomeD)
    then have "(k, v, e) \<in> set (data c)" by (simp add: map_of_SomeD)
    with e show ?thesis by blast
  qed
  from 1 2 3 show ?thesis unfolding c_def by blast
qed

theorem cache_get_never_stale_witness:
  "''b'' \<notin> set_keys [Set ''a'' (1::nat) 5 0 0]
   \<and> fst (cache_get (run_cache_ops (Cache 2) [Set ''a'' (1::nat) 5 0 0]) ''b'' 1) = None
   \<and> map_of (data (run_cache_ops (Cache 2) [Set ''a'' (1::nat) 5 0 0])) ''a'' = Some (1, 5)
   \<and> fst (cache_get (run_cache_ops (Cache 2) [Set ''a'' (1::nat) 5 0 0]) ''a'' 5) = None
   \<and> fst (cache_get (run_cache_ops (Cache 2) [Set ''a'' (1::nat) 5 0 0]) ''a'' 1) = Some 1
   \<and> (\<exists>e. (''a'', 1, e) \<in> set (data (run_cache_ops (Cache 2) [Set ''a'' (1::nat) 5 0 0])) \<and> 1 < e)"
proof -
  let ?xs = "[Set ''a'' (1::nat) 5 0 0]"
  have d: "run_cache_ops (Cache 2) ?xs = \<lparr>data = [(''a'', 1, 5)], max_size = 2\<rparr>"
    by (simp add: cache_set_def evict_def Cache_def)
  have g: "fst (cache_get (run_cache_ops (Cache 2) ?xs) ''a'' 1) = Some 1"
    unfolding d by (simp add: cache_get_def)
  from cache_get_never_stale [of "''b''" ?xs 2 1]
  have 1: "fst (cache_get (run_cache_ops (Cache 2) ?xs) ''b'' 1) = None" by simp
  from cache_get_never_stale [of "''a''" ?xs 2 5]
  have 2: "fst (cache_get (run_cache_ops (Cache 2) ?xs) ''a'' 5) = None" unfolding d by simp
  from cache_get_never_stale [of "''a''" ?xs 2 1] g
  have 3: "\<exists>e. (''a'', 1, e) \<in> set (data (run_cache_ops (Cache 2) ?xs)) \<and> 1 < e" by blast
  have 4: "map_of (data (run_cache_ops (Cache 2) ?xs)) ''a'' = Some (1, 5)" unfolding d by simp
  from 1 2 3 4 g show ?thesis by simp
qed

subsection \<open>The dict stays well formed; what a step does to one key\<close>

lemma distinct_del_keys: "distinct (map fst d) \<Longrightarrow> distinct (map fst (del_keys ks d))"
  by (simp add: del_keys_filter distinct_map_filter)

lemma wf_evict: "wf_cache c \<Longrightarrow> wf_cache (evict c now)"
  by (simp add: wf_cache_def evict_def Let_def distinct_del_keys)

lemma wf_cache_set: "wf_cache c \<Longrightarrow> wf_cache (cache_set c k v ttl n1 n2)"
  using wf_evict [of c n1] by (simp add: wf_cache_def cache_set_def Let_def AList.distinct_update)

lemma wf_cache_get: "wf_cache c \<Longrightarrow> wf_cache (snd (cache_get c k now))"
  by (auto simp: wf_cache_def cache_get_def AList.distinct_delete split: option.splits)

lemma wf_apply_cache_op: "wf_cache c \<Longrightarrow> wf_cache (apply_cache_op c x)"
  by (cases x) (simp_all add: wf_cache_get wf_cache_set)

lemma wf_run_cache_ops: "wf_cache c \<Longrightarrow> wf_cache (run_cache_ops c xs)"
  by (induction xs arbitrary: c) (simp_all add: wf_apply_cache_op)

lemma wf_Cache: "wf_cache (Cache m)"
  by (simp add: wf_cache_def Cache_def)

lemma map_of_filter_distinct:
  "distinct (map fst d) \<Longrightarrow> map_of d k = Some x \<Longrightarrow>
     map_of (filter P d) k = (if P (k, x) then Some x else None)"
proof (induction d)
  case Nil
  then show ?case by simp
next
  case (Cons p d)
  obtain k' x' where p: "p = (k', x')" by (cases p)
  show ?case
  proof (cases "k' = k")
    case True
    with Cons.prems p have x: "x' = x" and "k \<notin> fst ` set d" by auto
    then have "k \<notin> fst ` set (filter P d)" by auto
    then have "map_of (filter P d) k = None" by (simp add: map_of_eq_None_iff)
    with True p x show ?thesis by simp
  next
    case False
    with Cons p show ?thesis by simp
  qed
qed

lemma map_of_filter_None: "map_of d k = None \<Longrightarrow> map_of (filter P d) k = None"
  by (auto simp: map_of_eq_None_iff)

lemma data_evict_filter: "\<exists>P. data (evict c now) = filter P (data c)"
proof -
  have "\<exists>P. filter Q (filter R d) = filter P d" for Q R and d :: "('a \<times> 'b \<times> real) list"
    by (rule exI [of _ "\<lambda>x. R x \<and> Q x"]) simp
  moreover have "\<exists>P. d = filter P d" for d :: "('a \<times> 'b \<times> real) list"
    by (rule exI [of _ "\<lambda>x. True"]) simp
  moreover have "\<exists>P. filter R d = filter P d" for R and d :: "('a \<times> 'b \<times> real) list"
    by blast
  ultimately show ?thesis
    by (simp add: evict_def Let_def del_keys_filter)
qed

lemma map_of_evict_cases:
  assumes "wf_cache c"
  shows "map_of (data (evict c now)) k = None \<or> map_of (data (evict c now)) k = map_of (data c) k"
proof -
  obtain P where P: "data (evict c now) = filter P (data c)"
    using data_evict_filter by blast
  show ?thesis
  proof (cases "map_of (data c) k")
    case None
    then show ?thesis by (simp add: P map_of_filter_None)
  next
    case (Some x)
    with assms show ?thesis
      by (simp add: P wf_cache_def map_of_filter_distinct)
  qed
qed

lemma map_of_cache_set_same:
  "map_of (data (cache_set c k v ttl n1 n2)) k = Some (v, n2 + real_of_int ttl)"
  by (simp add: cache_set_def Let_def AList.update_conv')

lemma map_of_cache_set_other:
  assumes "wf_cache c" "k' \<noteq> k"
  shows "map_of (data (cache_set c k' v ttl n1 n2)) k = map_of (data (evict c n1)) k"
  using assms by (simp add: cache_set_def Let_def AList.update_conv')

lemma map_of_cache_get_other:
  "k' \<noteq> k \<Longrightarrow> map_of (data (snd (cache_get c k' now))) k = map_of (data c) k"
  by (simp add: cache_get_def split: option.splits)

lemma step_keeps_entry:
  assumes wf: "wf_cache c" and e: "map_of (data c) k = Some (v, e)" and t: "t < e"
    and q: "\<not> sets_key x k" "\<not> evicts_key c x k" "list_all (\<lambda>n. n \<le> t) (op_clock x)"
  shows "map_of (data (apply_cache_op c x)) k = Some (v, e)"
proof (cases x)
  case (Get k' now)
  show ?thesis
  proof (cases "k' = k")
    case True
    with q Get have "now < e" using t by simp
    with True Get e show ?thesis by (simp add: cache_get_def)
  next
    case False
    with Get e show ?thesis by (simp add: map_of_cache_get_other)
  qed
next
  case (Set k' v' ttl n1 n2)
  with q have ne: "k' \<noteq> k" by simp
  from e have "k \<in> keys_of c"
    by (auto simp: keys_of_def dest: map_of_SomeD intro: rev_image_eqI)
  with q Set have "k \<in> keys_of (evict c n1)" by simp
  then have "map_of (data (evict c n1)) k \<noteq> None"
    by (simp add: keys_of_def map_of_eq_None_iff)
  with map_of_evict_cases [OF wf, of n1 k] e
  have "map_of (data (evict c n1)) k = Some (v, e)" by auto
  with Set ne wf show ?thesis by (simp add: map_of_cache_set_other)
qed

lemma undisturbed_keeps_entry:
  "wf_cache c \<Longrightarrow> map_of (data c) k = Some (v, e) \<Longrightarrow> t < e \<Longrightarrow> undisturbed k t c xs
     \<Longrightarrow> map_of (data (run_cache_ops c xs)) k = Some (v, e)"
proof (induction xs arbitrary: c)
  case Nil
  then show ?case by simp
next
  case (Cons x xs)
  from Cons.prems have q: "\<not> sets_key x k" "\<not> evicts_key c x k"
      "list_all (\<lambda>n. n \<le> t) (op_clock x)"
    by auto
  from Cons.prems(1-3) q have "map_of (data (apply_cache_op c x)) k = Some (v, e)"
    by (rule step_keeps_entry)
  moreover from Cons.prems have "wf_cache (apply_cache_op c x)"
    by (simp add: wf_apply_cache_op)
  ultimately show ?case using Cons.prems Cons.IH [of "apply_cache_op c x"] by simp
qed

lemma step_no_other_entry:
  assumes wf: "wf_cache c" and e: "map_of (data c) k = None \<or> map_of (data c) k = Some y"
    and q: "\<not> sets_key x k"
  shows "map_of (data (apply_cache_op c x)) k = None \<or> map_of (data (apply_cache_op c x)) k = Some y"
proof (cases x)
  case (Get k' now)
  show ?thesis
  proof (cases "k' = k")
    case True
    with Get e show ?thesis
      by (auto simp: cache_get_def AList.delete_conv' split: option.splits)
  next
    case False
    with Get e show ?thesis by (simp add: map_of_cache_get_other)
  qed
next
  case (Set k' v' ttl n1 n2)
  with q have ne: "k' \<noteq> k" by simp
  with map_of_evict_cases [OF wf, of n1 k] e Set wf show ?thesis
    by (auto simp: map_of_cache_set_other)
qed

lemma unset_no_other_entry:
  "wf_cache c \<Longrightarrow> map_of (data c) k = None \<or> map_of (data c) k = Some y
     \<Longrightarrow> list_all (\<lambda>x. \<not> sets_key x k) xs
     \<Longrightarrow> map_of (data (run_cache_ops c xs)) k = None \<or> map_of (data (run_cache_ops c xs)) k = Some y"
proof (induction xs arbitrary: c)
  case Nil
  then show ?case by simp
next
  case (Cons x xs)
  from Cons.prems have q: "\<not> sets_key x k" by simp
  from Cons.prems(1,2) q have "map_of (data (apply_cache_op c x)) k = None
      \<or> map_of (data (apply_cache_op c x)) k = Some y"
    by (rule step_no_other_entry)
  moreover from Cons.prems have "wf_cache (apply_cache_op c x)"
    by (simp add: wf_apply_cache_op)
  ultimately show ?case using Cons.prems Cons.IH [of "apply_cache_op c x"] by simp
qed

text \<open>
  C2. After \<open>cache.set(k, v, ttl)\<close> on any reachable cache, with the new expiry time
  \<open>n2 + ttl\<close> (\<open>n2\<close> the clock reading of the insertion): a later \<open>get(k)\<close> at a clock
  reading \<open>t < n2 + ttl\<close> returns \<open>v\<close>, whatever operations came in between, as long as
  none of them set \<open>k\<close>, none evicted \<open>k\<close> for capacity, and none read the clock later
  than \<open>t\<close>; and a \<open>get(k)\<close> at a reading \<open>t \<ge> n2 + ttl\<close> returns absent, as long as no
  operation in between set \<open>k\<close>. This holds for every ttl, so for every \<open>ttl > 0\<close>.
\<close>

theorem cache_set_then_get:
  fixes ys xs :: "('k, 'v) cache_op list" and m :: int
  shows "(undisturbed k t (cache_set (run_cache_ops (Cache m) ys) k v ttl n1 n2) xs
            \<and> t < n2 + real_of_int ttl
          \<longrightarrow> fst (cache_get (run_cache_ops (cache_set (run_cache_ops (Cache m) ys) k v ttl n1 n2) xs) k t)
                = Some v)
       \<and> (list_all (\<lambda>x. \<not> sets_key x k) xs \<and> n2 + real_of_int ttl \<le> t
          \<longrightarrow> fst (cache_get (run_cache_ops (cache_set (run_cache_ops (Cache m) ys) k v ttl n1 n2) xs) k t)
                = None)"
proof -
  define c1 where "c1 = cache_set (run_cache_ops (Cache m :: ('k, 'v) cache) ys) k v ttl n1 n2"
  have wf: "wf_cache c1"
    unfolding c1_def by (intro wf_cache_set wf_run_cache_ops wf_Cache)
  have e: "map_of (data c1) k = Some (v, n2 + real_of_int ttl)"
    unfolding c1_def by (rule map_of_cache_set_same)
  have 1: "fst (cache_get (run_cache_ops c1 xs) k t) = Some v"
    if "undisturbed k t c1 xs" "t < n2 + real_of_int ttl"
  proof -
    from wf e that have "map_of (data (run_cache_ops c1 xs)) k = Some (v, n2 + real_of_int ttl)"
      by (intro undisturbed_keeps_entry) simp_all
    with that show ?thesis by (simp add: cache_get_def)
  qed
  have 2: "fst (cache_get (run_cache_ops c1 xs) k t) = None"
    if "list_all (\<lambda>x. \<not> sets_key x k) xs" "n2 + real_of_int ttl \<le> t"
  proof -
    from wf e that have "map_of (data (run_cache_ops c1 xs)) k = None
        \<or> map_of (data (run_cache_ops c1 xs)) k = Some (v, n2 + real_of_int ttl)"
      by (intro unset_no_other_entry) simp_all
    with that show ?thesis by (auto simp: cache_get_def)
  qed
  from 1 2 show ?thesis unfolding c1_def by blast
qed

theorem cache_set_then_get_witness:
  "undisturbed ''a'' 2 (cache_set (run_cache_ops (Cache 2) []) ''a'' (7::nat) 5 0 0)
      [Get ''b'' 1, Set ''b'' 3 5 1 1, Get ''a'' 2]
   \<and> (2::real) < 0 + real_of_int 5
   \<and> fst (cache_get (run_cache_ops (cache_set (run_cache_ops (Cache 2) []) ''a'' (7::nat) 5 0 0)
              [Get ''b'' 1, Set ''b'' 3 5 1 1, Get ''a'' 2]) ''a'' 2) = Some 7
   \<and> list_all (\<lambda>x. \<not> sets_key x ''a'') [Get ''b'' 1, Set ''b'' (3::nat) 5 1 1, Get ''a'' 2]
   \<and> (0::real) + real_of_int 5 \<le> 5
   \<and> fst (cache_get (run_cache_ops (cache_set (run_cache_ops (Cache 2) []) ''a'' (7::nat) 5 0 0)
              [Get ''b'' 1, Set ''b'' 3 5 1 1, Get ''a'' 2]) ''a'' 5) = None"
proof -
  let ?xs = "[Get ''b'' 1, Set ''b'' (3::nat) 5 1 1, Get ''a'' 2]"
  let ?c1 = "cache_set (run_cache_ops (Cache 2) []) ''a'' (7::nat) 5 0 0"
  have c1: "?c1 = \<lparr>data = [(''a'', 7, 5)], max_size = 2\<rparr>"
    by (simp add: cache_set_def evict_def Cache_def)
  have u: "undisturbed ''a'' 2 ?c1 ?xs"
    unfolding c1 by (simp add: cache_get_def cache_set_def evict_def keys_of_def)
  have s: "list_all (\<lambda>x. \<not> sets_key x ''a'') ?xs" by simp
  from cache_set_then_get [of "''a''" 2 2 "[]" 7 5 0 0 ?xs] u
  have 1: "fst (cache_get (run_cache_ops ?c1 ?xs) ''a'' 2) = Some 7" by simp
  from cache_set_then_get [of "''a''" 5 2 "[]" 7 5 0 0 ?xs] s
  have 2: "fst (cache_get (run_cache_ops ?c1 ?xs) ''a'' 5) = None" by simp
  from u s 1 2 show ?thesis by simp
qed

subsection \<open>The capacity block of set\<close>

lemma eq_key_in_distinct:
  "distinct (map fst d) \<Longrightarrow> p \<in> set d \<Longrightarrow> q \<in> set d \<Longrightarrow> fst p = fst q \<Longrightarrow> p = q"
  by (metis distinct_map inj_on_def)

lemma del_keys_entries:
  assumes "distinct (map fst d)" "set S \<subseteq> set d"
  shows "del_keys (map fst S) d = filter (\<lambda>p. p \<notin> set S) d"
proof -
  have "(fst p \<notin> set (map fst S)) = (p \<notin> set S)" if "p \<in> set d" for p
  proof
    assume "fst p \<notin> set (map fst S)"
    then show "p \<notin> set S" by auto
  next
    assume n: "p \<notin> set S"
    show "fst p \<notin> set (map fst S)"
    proof
      assume "fst p \<in> set (map fst S)"
      then obtain q where q: "q \<in> set S" "fst p = fst q" by auto
      with assms that have "p = q" by (auto intro: eq_key_in_distinct)
      with q n show False by simp
    qed
  qed
  then show ?thesis
    unfolding del_keys_filter by (intro filter_cong) auto
qed

lemma purge_expired:
  assumes "distinct (map fst d)"
  shows "del_keys (expired_keys d now) d = filter (\<lambda>(k, v, e). \<not> e \<le> now) d"
proof -
  have "del_keys (expired_keys d now) d
      = filter (\<lambda>p. p \<notin> set (filter (\<lambda>(k, v, e). e \<le> now) d)) d"
    unfolding expired_keys_def using assms by (intro del_keys_entries) auto
  also have "\<dots> = filter (\<lambda>(k, v, e). \<not> e \<le> now) d"
    by (intro filter_cong) auto
  finally show ?thesis .
qed

lemma length_filter_out:
  assumes "distinct d" "distinct S" "set S \<subseteq> set d"
  shows "length (filter (\<lambda>p. p \<notin> set S) d) = length d - length S"
proof -
  have "set (filter (\<lambda>p. p \<in> set S) d) = set S" using assms by auto
  moreover have "distinct (filter (\<lambda>p. p \<in> set S) d)" using assms by simp
  ultimately have "length (filter (\<lambda>p. p \<in> set S) d) = length S"
    using assms(2) by (metis distinct_card)
  moreover have "length (filter (\<lambda>p. p \<in> set S) d) + length (filter (\<lambda>p. \<not> p \<in> set S) d) = length d"
    by (rule sum_length_filter_compl)
  ultimately show ?thesis by simp
qed

lemma take_sorted_least:
  assumes "x \<in> set (take n (sort_key f d))" "y \<in> set d" "y \<notin> set (take n (sort_key f d))"
  shows "f x \<le> f y"
proof -
  let ?s = "sort_key f d"
  have "sorted (map f (take n ?s @ drop n ?s))" by simp
  then have *: "\<forall>a \<in> set (map f (take n ?s)). \<forall>b \<in> set (map f (drop n ?s)). a \<le> b"
    unfolding map_append sorted_append by blast
  have "y \<in> set (take n ?s @ drop n ?s)" using assms(2) by simp
  with assms(3) have "y \<in> set (drop n ?s)" unfolding set_append by blast
  with assms(1) * show ?thesis by auto
qed

lemma evict_drop_oldest:
  fixes c :: "('k, 'v) cache"
  assumes wf: "distinct (map fst (data c))" and m: "0 \<le> max_size c"
    and full: "max_size c \<le> int (length (data c))"
    and live: "live = filter (\<lambda>(k, v, e). \<not> e \<le> now1) (data c)"
    and still: "max_size c \<le> int (length live)"
    and oldest: "oldest = take (nat (max_size c div 10)) (sort_key (\<lambda>x. snd (snd x)) live)"
  shows "data (evict c now1) = filter (\<lambda>p. p \<notin> set oldest) live"
    and "set oldest \<subseteq> set live"
    and "int (length oldest) = max_size c div 10"
    and "int (length (data (evict c now1))) = int (length live) - max_size c div 10"
    and "\<forall>x \<in> set oldest. \<forall>y \<in> set (data (evict c now1)). snd (snd x) \<le> snd (snd y)"
proof -
  have purge: "del_keys (expired_keys (data c) now1) (data c) = live"
    unfolding live using wf by (rule purge_expired)
  have dl: "distinct (map fst live)"
    unfolding live using wf by (simp add: distinct_map_filter)
  then have dl': "distinct live" by (simp add: distinct_map)
  show sub: "set oldest \<subseteq> set live"
    unfolding oldest using set_take_subset [of _ "sort_key (\<lambda>x. snd (snd x)) live"] by auto
  have nonneg: "0 \<le> max_size c div 10" using m by (simp add: pos_imp_zdiv_nonneg_iff)
  then have slice: "py_slice_to (sort_key (\<lambda>x. snd (snd x)) live) (max_size c div 10) = oldest"
    unfolding oldest py_slice_to_def by simp
  have "data (evict c now1) = del_keys (map fst oldest) live"
    using full still by (simp add: evict_def purge slice)
  also have "\<dots> = filter (\<lambda>p. p \<notin> set oldest) live"
    using dl sub by (rule del_keys_entries)
  finally show d: "data (evict c now1) = filter (\<lambda>p. p \<notin> set oldest) live" .
  have "max_size c div 10 \<le> max_size c" using m by simp
  with still have le: "nat (max_size c div 10) \<le> length live" by simp
  then have len: "length oldest = nat (max_size c div 10)"
    unfolding oldest by simp
  with nonneg show len': "int (length oldest) = max_size c div 10" by simp
  have "distinct oldest" unfolding oldest using dl' by (simp add: distinct_take)
  with dl' sub have "length (filter (\<lambda>p. p \<notin> set oldest) live) = length live - length oldest"
    by (intro length_filter_out)
  moreover have "length oldest \<le> length live" using le len by simp
  ultimately show "int (length (data (evict c now1))) = int (length live) - max_size c div 10"
    using d len' by simp
  have "snd (snd x) \<le> snd (snd y)" if "x \<in> set oldest" "y \<in> set (data (evict c now1))" for x y
    using that unfolding d oldest by (intro take_sorted_least [where f = "\<lambda>x. snd (snd x)"]) auto
  then show "\<forall>x \<in> set oldest. \<forall>y \<in> set (data (evict c now1)). snd (snd x) \<le> snd (snd y)"
    by blast
qed

lemma evict_purge_only:
  assumes "wf_cache c" "max_size c \<le> int (length (data c))"
    "int (length (filter (\<lambda>(k, v, e). \<not> e \<le> now) (data c))) < max_size c"
  shows "data (evict c now) = filter (\<lambda>(k, v, e). \<not> e \<le> now) (data c)"
  using assms by (simp add: evict_def wf_cache_def purge_expired)

text \<open>
  C3. For a cache (a dict, so with distinct keys) of capacity \<open>max_size \<ge> 0\<close>: a set below
  capacity evicts nothing. A set at capacity first removes exactly the entries with
  \<open>expires <= now\<close>, keeping the others in order; if the count is still at capacity it
  then removes the first \<open>max_size // 10\<close> entries of the remaining ones sorted by
  ascending expiry time: exactly \<open>max_size // 10\<close> entries, each expiring no later than
  every entry that is kept. Only then is the new entry inserted.
\<close>

theorem cache_set_eviction:
  fixes c :: "('k, 'v) cache"
  assumes "distinct (map fst (data c))" and "0 \<le> max_size c"
  shows "(int (length (data c)) < max_size c \<longrightarrow> evict c now1 = c)
    \<and> (max_size c \<le> int (length (data c))
         \<and> int (length (filter (\<lambda>(k, v, e). \<not> e \<le> now1) (data c))) < max_size c
       \<longrightarrow> data (evict c now1) = filter (\<lambda>(k, v, e). \<not> e \<le> now1) (data c))
    \<and> (max_size c \<le> int (length (data c))
         \<and> max_size c \<le> int (length (filter (\<lambda>(k, v, e). \<not> e \<le> now1) (data c)))
       \<longrightarrow> (let live = filter (\<lambda>(k, v, e). \<not> e \<le> now1) (data c);
                oldest = take (nat (max_size c div 10)) (sort_key (\<lambda>x. snd (snd x)) live)
            in data (evict c now1) = filter (\<lambda>p. p \<notin> set oldest) live
             \<and> set oldest \<subseteq> set live
             \<and> int (length oldest) = max_size c div 10
             \<and> int (length (data (evict c now1))) = int (length live) - max_size c div 10
             \<and> (\<forall>x \<in> set oldest. \<forall>y \<in> set (data (evict c now1)). snd (snd x) \<le> snd (snd y))))
    \<and> data (cache_set c key val ttl now1 now2)
        = AList.update key (val, now2 + real_of_int ttl) (data (evict c now1))"
proof -
  have 1: "evict c now1 = c" if "int (length (data c)) < max_size c"
    using that by (simp add: evict_def)
  have 2: "data (evict c now1) = filter (\<lambda>(k, v, e). \<not> e \<le> now1) (data c)"
    if "max_size c \<le> int (length (data c))"
       "int (length (filter (\<lambda>(k, v, e). \<not> e \<le> now1) (data c))) < max_size c"
    using assms(1) that by (intro evict_purge_only) (simp_all add: wf_cache_def)
  have 4: "data (cache_set c key val ttl now1 now2)
        = AList.update key (val, now2 + real_of_int ttl) (data (evict c now1))"
    by (simp add: cache_set_def Let_def)
  show ?thesis
    unfolding Let_def
    using 1 2 4 evict_drop_oldest [OF assms _ refl _ refl, of now1]
    by (intro conjI impI) blast+
qed

theorem cache_set_eviction_witness:
  "distinct (map fst ten_entries)
   \<and> evict \<lparr>data = ten_entries, max_size = 11\<rparr> 4 = \<lparr>data = ten_entries, max_size = 11\<rparr>
   \<and> data (evict \<lparr>data = ten_entries, max_size = 10\<rparr> 4) = remove1 (''b'', 1, 3) ten_entries
   \<and> data (evict \<lparr>data = ten_entries, max_size = 10\<rparr> 2) = remove1 (''b'', 1, 3) ten_entries
   \<and> data (cache_set \<lparr>data = ten_entries, max_size = 10\<rparr> ''k'' 10 5 2 2)
       = remove1 (''b'', 1, 3) ten_entries @ [(''k'', 10, 7)]"
proof -
  have d: "distinct (map fst ten_entries)" by (simp add: ten_entries_def Let_def)
  have 1: "evict \<lparr>data = ten_entries, max_size = 11\<rparr> 4 = \<lparr>data = ten_entries, max_size = 11\<rparr>"
    using cache_set_eviction [of "\<lparr>data = ten_entries, max_size = 11\<rparr>" 4] d
    by (simp add: ten_entries_def Let_def)
  have 2: "data (evict \<lparr>data = ten_entries, max_size = 10\<rparr> 4) = remove1 (''b'', 1, 3) ten_entries"
    using cache_set_eviction [of "\<lparr>data = ten_entries, max_size = 10\<rparr>" 4] d
    by (simp add: ten_entries_def Let_def)
  have 3: "data (evict \<lparr>data = ten_entries, max_size = 10\<rparr> 2) = remove1 (''b'', 1, 3) ten_entries"
    using cache_set_eviction [of "\<lparr>data = ten_entries, max_size = 10\<rparr>" 2] d
    by (simp add: ten_entries_def Let_def)
  have 4: "data (cache_set \<lparr>data = ten_entries, max_size = 10\<rparr> ''k'' 10 5 2 2)
       = remove1 (''b'', 1, 3) ten_entries @ [(''k'', 10, 7)]"
    using cache_set_eviction [of "\<lparr>data = ten_entries, max_size = 10\<rparr>" 2 "''k''" 10 5 2] d 3
    by (simp add: ten_entries_def Let_def)
  from d 1 2 3 4 show ?thesis by blast
qed

subsection \<open>The size bound\<close>

lemma run_cache_ops_append: "run_cache_ops c (xs @ ys) = run_cache_ops (run_cache_ops c xs) ys"
  by (induction xs arbitrary: c) simp_all

lemma update_fresh: "k \<notin> fst ` set d \<Longrightarrow> AList.update k v d = d @ [(k, v)]"
  by (induction d) auto

lemma fill_key_inj: "fill_key i = fill_key j \<Longrightarrow> i = j"
proof -
  assume "fill_key i = fill_key j"
  then have "length (fill_key i) = length (fill_key j)" by simp
  then show "i = j" by (simp add: fill_key_def)
qed

lemma fill_state:
  "int n \<le> m \<Longrightarrow> run_cache_ops (Cache m) (fill_ops n) = \<lparr>data = fill_data n, max_size = m\<rparr>"
proof (induction n)
  case 0
  then show ?case by (simp add: fill_ops_def fill_data_def Cache_def)
next
  case (Suc n)
  let ?c = "\<lparr>data = fill_data n, max_size = m\<rparr>"
  have "fill_ops (Suc n) = fill_ops n @ [Set (fill_key n) 0 1 (real n) (real n)]"
    by (simp add: fill_ops_def)
  then have "run_cache_ops (Cache m) (fill_ops (Suc n))
      = cache_set (run_cache_ops (Cache m) (fill_ops n)) (fill_key n) 0 1 (real n) (real n)"
    by (simp add: run_cache_ops_append)
  also have "\<dots> = cache_set ?c (fill_key n) 0 1 (real n) (real n)"
    using Suc by simp
  also have "\<dots> = ?c\<lparr>data := AList.update (fill_key n) (0, real n + 1) (fill_data n)\<rparr>"
  proof -
    have "evict ?c (real n) = ?c"
      using Suc.prems by (simp add: evict_def fill_data_def)
    then show ?thesis by (simp add: cache_set_def)
  qed
  also have "AList.update (fill_key n) (0, real n + 1) (fill_data n)
      = fill_data n @ [(fill_key n, 0, real n + 1)]"
  proof (rule update_fresh)
    show "fill_key n \<notin> fst ` set (fill_data n)"
      by (auto simp: fill_data_def dest: fill_key_inj)
  qed
  also have "\<dots> = fill_data (Suc n)" by (simp add: fill_data_def)
  finally show ?case by simp
qed

lemma length_fill_data [simp]: "length (fill_data n) = n"
  by (simp add: fill_data_def)

lemma fill_data_live_1:
  "0 < n \<Longrightarrow> length (filter (\<lambda>(k, v, e). \<not> e \<le> 1) (fill_data n)) = n - 1"
proof -
  assume n: "0 < n"
  have "filter (\<lambda>(k, v, e). \<not> e \<le> 1) (fill_data n)
      = map (\<lambda>i. (fill_key i, 0, real i + 1)) (filter (\<lambda>i. 0 < i) [0..<n])"
    by (simp add: fill_data_def filter_map comp_def)
  moreover have "filter (\<lambda>i. 0 < i) [0..<n] = [Suc 0..<n]"
  proof -
    have "[0..<n] = 0 # [Suc 0..<n]" using n by (simp add: upt_conv_Cons)
    moreover have "filter (\<lambda>i. 0 < i) [Suc 0..<n] = [Suc 0..<n]"
      by (rule filter_True) auto
    ultimately show ?thesis by simp
  qed
  ultimately show ?thesis by simp
qed

lemma length_evict_full:
  assumes wf: "wf_cache c" and m: "10 \<le> max_size c"
    and le: "int (length (data c)) \<le> max_size c" and full: "max_size c \<le> int (length (data c))"
  shows "int (length (data (evict c now))) < max_size c"
proof -
  define live where "live = filter (\<lambda>(k, v, e). \<not> e \<le> now) (data c)"
  have ll: "length live \<le> length (data c)" unfolding live_def by simp
  show ?thesis
  proof (cases "int (length live) < max_size c")
    case True
    with wf full have "data (evict c now) = live"
      unfolding live_def by (intro evict_purge_only)
    with True show ?thesis by simp
  next
    case False
    then have still: "max_size c \<le> int (length live)" by simp
    from wf have d: "distinct (map fst (data c))" by (simp add: wf_cache_def)
    from m have m0: "0 \<le> max_size c" by simp
    have "int (length (data (evict c now))) = int (length live) - max_size c div 10"
      by (rule evict_drop_oldest(4) [OF d m0 full live_def still refl])
    moreover have "1 \<le> max_size c div 10" using m by simp
    ultimately show ?thesis using ll le by simp
  qed
qed

lemma length_update_le: "length (AList.update k v d) \<le> Suc (length d)"
  by (induction d) auto

lemma length_cache_set:
  assumes wf: "wf_cache c" and m: "10 \<le> max_size c"
    and le: "int (length (data c)) \<le> max_size c"
  shows "int (length (data (cache_set c k v ttl n1 n2))) \<le> max_size c"
proof -
  have "int (length (data (evict c n1))) < max_size c"
  proof (cases "max_size c \<le> int (length (data c))")
    case True
    with wf m le show ?thesis by (intro length_evict_full)
  next
    case False
    then show ?thesis by (simp add: evict_def)
  qed
  moreover have "length (data (cache_set c k v ttl n1 n2)) \<le> Suc (length (data (evict c n1)))"
    by (simp add: cache_set_def Let_def length_update_le)
  ultimately show ?thesis by simp
qed

lemma length_cache_get: "length (data (snd (cache_get c k now))) \<le> length (data c)"
  by (auto simp: cache_get_def AList.length_delete_le split: option.splits)

lemma max_size_apply_cache_op [simp]: "max_size (apply_cache_op c x) = max_size c"
  by (cases x) (auto simp: cache_get_def cache_set_def Let_def split: option.splits)

lemma max_size_run_cache_ops [simp]: "max_size (run_cache_ops c xs) = max_size c"
  by (induction xs arbitrary: c) simp_all

lemma length_run_cache_ops:
  "wf_cache c \<Longrightarrow> 10 \<le> max_size c \<Longrightarrow> int (length (data c)) \<le> max_size c
     \<Longrightarrow> int (length (data (run_cache_ops c xs))) \<le> max_size c"
proof (induction xs arbitrary: c)
  case Nil
  then show ?case by simp
next
  case (Cons x xs)
  have "int (length (data (apply_cache_op c x))) \<le> max_size c"
  proof (cases x)
    case (Get k now)
    with Cons.prems length_cache_get [of c k now] show ?thesis by simp
  next
    case (Set k v ttl n1 n2)
    with Cons.prems show ?thesis by (simp add: length_cache_set)
  qed
  with Cons.prems Cons.IH [of "apply_cache_op c x"] show ?case
    by (simp add: wf_apply_cache_op)
qed

text \<open>
  C10 (as amended). For a cache constructed with \<open>max_size = 1000\<close>, in every state
  reached by any sequence of operations the number of entries is at most 1000, also after
  one more set. Whenever the count has reached 1000 before an insert, the capacity block
  leaves fewer than 1000 entries (so at least one entry is evicted), and it evicts
  \<open>max_size // 10 = 100\<close> entries, leaving 900, when no entry has expired.
\<close>

theorem cache_size_bounded:
  fixes xs :: "('k, 'v) cache_op list"
  shows "int (length (data (run_cache_ops (Cache 1000) xs))) \<le> 1000
    \<and> int (length (data (cache_set (run_cache_ops (Cache 1000) xs) k v ttl n1 n2))) \<le> 1000
    \<and> (int (length (data (run_cache_ops (Cache 1000) xs))) = 1000 \<longrightarrow>
         int (length (data (evict (run_cache_ops (Cache 1000) xs) now))) < 1000
       \<and> (list_all (\<lambda>(k, v, e). \<not> e \<le> now) (data (run_cache_ops (Cache 1000) xs)) \<longrightarrow>
            int (length (data (evict (run_cache_ops (Cache 1000) xs) now))) = 900))"
proof -
  define c :: "('k, 'v) cache" where "c = run_cache_ops (Cache 1000) xs"
  have wf: "wf_cache c" unfolding c_def by (intro wf_run_cache_ops wf_Cache)
  have m: "max_size c = 1000" unfolding c_def by (simp add: Cache_def)
  have le: "int (length (data c)) \<le> 1000"
  proof -
    have "int (length (data (run_cache_ops (Cache 1000 :: ('k, 'v) cache) xs)))
        \<le> max_size (Cache 1000 :: ('k, 'v) cache)"
      by (rule length_run_cache_ops) (simp_all add: wf_cache_def Cache_def)
    then show ?thesis unfolding c_def by (simp add: Cache_def)
  qed
  have 2: "int (length (data (cache_set c k v ttl n1 n2))) \<le> 1000"
    using length_cache_set [OF wf, of k v ttl n1 n2] le m by simp
  have 3: "int (length (data (evict c now))) < 1000" if "int (length (data c)) = 1000"
    using length_evict_full [OF wf, of now] that m by simp
  have 4: "int (length (data (evict c now))) = 900"
    if full: "int (length (data c)) = 1000" and "list_all (\<lambda>(k, v, e). \<not> e \<le> now) (data c)"
  proof -
    from that(2) have live: "data c = filter (\<lambda>(k, v, e). \<not> e \<le> now) (data c)"
      by (simp add: list_all_iff)
    from wf have d: "distinct (map fst (data c))" by (simp add: wf_cache_def)
    have "int (length (data (evict c now))) = int (length (data c)) - max_size c div 10"
      using evict_drop_oldest(4) [OF d _ _ live _ refl] full m by simp
    with full m show ?thesis by simp
  qed
  from le 2 3 4 show ?thesis unfolding c_def by blast
qed

theorem cache_size_bounded_witness:
  "int (length (data (run_cache_ops (Cache 1000) (fill_ops 1000)))) = 1000
   \<and> list_all (\<lambda>(k, v, e). \<not> e \<le> 0) (data (run_cache_ops (Cache 1000) (fill_ops 1000)))
   \<and> int (length (data (evict (run_cache_ops (Cache 1000) (fill_ops 1000)) 0))) = 900"
proof -
  let ?c = "run_cache_ops (Cache 1000) (fill_ops 1000)"
  have c: "?c = \<lparr>data = fill_data 1000, max_size = 1000\<rparr>"
    by (rule fill_state) simp
  have 1: "int (length (data ?c)) = 1000" unfolding c by simp
  have 2: "list_all (\<lambda>(k, v, e). \<not> e \<le> 0) (data ?c)"
    unfolding c by (simp add: fill_data_def list_all_iff)
  from cache_size_bounded [of "fill_ops 1000" _ _ _ _ _ 0] 1 2
  have "int (length (data (evict ?c 0))) = 900" by blast
  with 1 2 show ?thesis by blast
qed

text \<open>
  The capacity block need not evict \<open>max_size // 10\<close> entries: in the cache filled by
  1000 sets, one entry has expired at clock reading 1, the purge of expired entries
  leaves 999 entries, and nothing more is evicted.
\<close>

theorem cache_size_bounded_counterexample:
  "int (length (data (run_cache_ops (Cache 1000) (fill_ops 1000)))) = 1000
   \<and> \<not> (1000 div 10 \<le> int (length (data (run_cache_ops (Cache 1000) (fill_ops 1000))))
          - int (length (data (evict (run_cache_ops (Cache 1000) (fill_ops 1000)) 1))))"
proof -
  let ?c = "run_cache_ops (Cache 1000) (fill_ops 1000)"
  have c: "?c = \<lparr>data = fill_data 1000, max_size = 1000\<rparr>"
    by (rule fill_state) simp
  have wf: "wf_cache ?c" by (intro wf_run_cache_ops wf_Cache)
  have live: "length (filter (\<lambda>(k, v, e). \<not> e \<le> 1) (data ?c)) = 999"
    unfolding c using fill_data_live_1 [of 1000] by simp
  have "data (evict ?c 1) = filter (\<lambda>(k, v, e). \<not> e \<le> 1) (data ?c)"
  proof (rule evict_purge_only [OF wf])
    show "max_size ?c \<le> int (length (data ?c))" unfolding c by simp
    show "int (length (filter (\<lambda>(k, v, e). \<not> e \<le> 1) (data ?c))) < max_size ?c"
      unfolding live unfolding c by simp
  qed
  then have "length (data (evict ?c 1)) = 999" using live by simp
  moreover have "length (data ?c) = 1000" unfolding c by simp
  ultimately show ?thesis by simp
qed

section \<open>Properties of the rate gate\<close>

lemma check_limited:
  assumes "rate_limit_per_minute \<le> length (prune now (stamps (requests s) u))"
  shows "check s now u msg
       = ((None, Some rate_limit_msg), s\<lparr>requests := (requests s)(u \<mapsto> prune now (stamps (requests s) u))\<rparr>)"
  using assms by (simp add: check_def stamps_def)

lemma drop_stale_fresh:
  assumes "d u = Some (ts @ [now])"
  shows "drop_stale now d u = Some (ts @ [now])"
proof -
  have "now \<le> Max (set (ts @ [now]))" by (intro Max_ge) simp_all
  then have "\<not> now - Max (set (ts @ [now])) > 300" by linarith
  with assms show ?thesis by (simp only: drop_stale_def option.case) simp
qed

lemma drop_stale_other:
  "drop_stale now d u = d u
   \<or> (drop_stale now d u = None \<and> (stamps d u = [] \<or> now - Max (set (stamps d u)) > 300))"
  by (auto simp: drop_stale_def stamps_def split: option.splits)

lemma check_passed:
  assumes "length (prune now (stamps (requests s) u)) < rate_limit_per_minute"
  shows "requests (snd (check s now u msg)) u = Some (prune now (stamps (requests s) u) @ [now])"
    and "snd (fst (check s now u msg)) \<noteq> Some rate_limit_msg"
    and "check_count (snd (check s now u msg)) = check_count s + 1"
  using assms
  by (auto simp: check_def stamps_def Let_def drop_stale_fresh rate_limit_msg_def)

lemma check_other:
  assumes "u \<noteq> v"
  shows "requests (snd (check s now v msg)) u = requests s u
   \<or> (requests (snd (check s now v msg)) u = None
       \<and> (stamps (requests s) u = [] \<or> now - Max (set (stamps (requests s) u)) > 300))"
proof -
  let ?d = "(requests s)(v \<mapsto> prune now (stamps (requests s) v) @ [now])"
  have d: "?d u = requests s u" "stamps ?d u = stamps (requests s) u"
    using assms by (simp_all add: stamps_def)
  from drop_stale_other [of now ?d u] d
  have *: "drop_stale now ?d u = requests s u
     \<or> (drop_stale now ?d u = None
         \<and> (stamps (requests s) u = [] \<or> now - Max (set (stamps (requests s) u)) > 300))"
    by simp
  show ?thesis
    using assms * by (auto simp: check_def stamps_def Let_def)
qed

lemma gate_step_check: "gate_step (requests s) v now (requests (snd (check s now v msg)))"
proof -
  have 1: "requests (snd (check s now v msg)) v = Some (prune now (stamps (requests s) v))"
    if "rate_limit_per_minute \<le> length (prune now (stamps (requests s) v))"
    using check_limited [OF that, of msg] by simp
  have 2: "requests (snd (check s now v msg)) v = Some (prune now (stamps (requests s) v) @ [now])"
    if "\<not> rate_limit_per_minute \<le> length (prune now (stamps (requests s) v))"
    using that by (intro check_passed) simp
  show ?thesis
    unfolding gate_step_def using 1 2 check_other [of _ v s now msg] by auto
qed

lemma gate_step_check_rate_limit: "gate_step d v now (snd (check_rate_limit d now v))"
  by (simp add: gate_step_def check_rate_limit_def stamps_def Let_def)

lemma prune_all_old: "list_all (\<lambda>x. 60 \<le> now - x) ts \<Longrightarrow> prune now ts = []"
  by (induction ts) (auto simp: prune_def)

lemma limit_pos: "0 < rate_limit_per_minute"
  by (simp add: rate_limit_per_minute_def)

lemma prune_prune: "now \<le> t \<Longrightarrow> prune t (prune now ts) = prune t ts"
  by (induction ts) (auto simp: prune_def)

lemma prune_append: "prune t (xs @ ys) = prune t xs @ prune t ys"
  by (simp add: prune_def)

lemma prune_stale:
  assumes "ts = [] \<or> now - Max (set ts) > 300" and "now \<le> t"
  shows "prune t ts = []"
proof (rule prune_all_old, unfold list_all_iff, rule ballI)
  fix x assume x: "x \<in> set ts"
  then have "x \<le> Max (set ts)" by simp
  moreover from x assms(1) have "now - Max (set ts) > 300" by auto
  ultimately show "60 \<le> t - x" using assms(2) by linarith
qed

text \<open>
  Seen through the window of a clock reading \<open>t\<close> not before the request, one request
  changes the list of a sender only by the stamp of its own accepted request.
\<close>

lemma window_step:
  assumes g: "gate_step d v now d'" and t: "now \<le> t"
  shows "prune t (stamps d' u)
     = prune t (stamps d u
         @ (if v = u \<and> length (prune now (stamps d u)) < rate_limit_per_minute then [now] else []))"
proof (cases "v = u")
  case True
  show ?thesis
  proof (cases "rate_limit_per_minute \<le> length (prune now (stamps d u))")
    case full: True
    with g True have "stamps d' u = prune now (stamps d u)" by (simp add: gate_step_def stamps_def)
    with True full t show ?thesis by (simp add: prune_prune)
  next
    case room: False
    with g True have "stamps d' u = prune now (stamps d u) @ [now]"
      by (simp add: gate_step_def stamps_def)
    with True room t show ?thesis by (simp add: prune_append prune_prune)
  qed
next
  case False
  with g have "d' u = d u
      \<or> (d' u = None \<and> (stamps d u = [] \<or> now - Max (set (stamps d u)) > 300))"
    by (auto simp: gate_step_def)
  then show ?thesis
  proof
    assume "d' u = d u"
    with False show ?thesis by (simp add: stamps_def)
  next
    assume a: "d' u = None \<and> (stamps d u = [] \<or> now - Max (set (stamps d u)) > 300)"
    then have "prune t (stamps d u) = []" using t by (intro prune_stale) simp_all
    moreover from a have "stamps d' u = []" by (simp add: stamps_def)
    ultimately show ?thesis using False by (simp add: prune_def)
  qed
qed

lemma check_error_iff:
  "snd (fst (check s now u msg)) = Some rate_limit_msg
   \<longleftrightarrow> rate_limit_per_minute \<le> length (prune now (stamps (requests s) u))"
proof (cases "rate_limit_per_minute \<le> length (prune now (stamps (requests s) u))")
  case True
  from check_limited [OF True, of msg] True show ?thesis by simp
next
  case False
  then have "length (prune now (stamps (requests s) u)) < rate_limit_per_minute" by simp
  from check_passed(2) [OF this, of msg] False show ?thesis by simp
qed

lemma check_rate_limit_error_iff:
  "fst (check_rate_limit d now u) = Some rate_limit_msg
   \<longleftrightarrow> rate_limit_per_minute \<le> length (prune now (stamps d u))"
  by (simp add: check_rate_limit_def stamps_def Let_def)

lemma window_run_checks:
  "list_all (\<lambda>e. time_of e \<le> t) evs \<Longrightarrow>
   prune t (stamps (requests (run_checks s evs)) u)
     = prune t (stamps (requests s) u @ accepted_checks s u evs)"
proof (induction s evs rule: run_checks.induct)
  case (1 s)
  then show ?case by simp
next
  case (2 s v now msg evs)
  from "2.prems" have now: "now \<le> t" and rest: "list_all (\<lambda>e. time_of e \<le> t) evs"
    by (simp_all add: time_of_def)
  let ?s' = "snd (check s now v msg)"
  let ?a = "if v = u \<and> snd (fst (check s now v msg)) \<noteq> Some rate_limit_msg then [now] else []"
  have a: "?a = (if v = u \<and> length (prune now (stamps (requests s) u)) < rate_limit_per_minute
                 then [now] else [])"
    using check_error_iff [of s now u msg] by auto
  have "prune t (stamps (requests (run_checks ?s' evs)) u)
      = prune t (stamps (requests ?s') u) @ prune t (accepted_checks ?s' u evs)"
    using "2.IH" [OF rest] by (simp add: prune_append)
  also have "prune t (stamps (requests ?s') u) = prune t (stamps (requests s) u @ ?a)"
    unfolding a using gate_step_check now by (rule window_step)
  finally show ?case by (simp add: prune_append)
qed

lemma window_run_rate_limits:
  "list_all (\<lambda>e. time_of e \<le> t) evs \<Longrightarrow>
   prune t (stamps (run_rate_limits d evs) u)
     = prune t (stamps d u @ accepted_rate_limits d u evs)"
proof (induction d evs rule: run_rate_limits.induct)
  case (1 d)
  then show ?case by simp
next
  case (2 d v now msg evs)
  from "2.prems" have now: "now \<le> t" and rest: "list_all (\<lambda>e. time_of e \<le> t) evs"
    by (simp_all add: time_of_def)
  let ?d' = "snd (check_rate_limit d now v)"
  let ?a = "if v = u \<and> fst (check_rate_limit d now v) \<noteq> Some rate_limit_msg then [now] else []"
  have a: "?a = (if v = u \<and> length (prune now (stamps d u)) < rate_limit_per_minute
                 then [now] else [])"
    using check_rate_limit_error_iff [of d now u] by auto
  have "prune t (stamps (run_rate_limits ?d' evs) u)
      = prune t (stamps ?d' u) @ prune t (accepted_rate_limits ?d' u evs)"
    using "2.IH" [OF rest] by (simp add: prune_append)
  also have "prune t (stamps ?d' u) = prune t (stamps d u @ ?a)"
    unfolding a using gate_step_check_rate_limit now by (rule window_step)
  finally show ?case by (simp add: prune_append)
qed

lemma check_clean:
  assumes "length (prune now (stamps (requests s) u)) < rate_limit_per_minute"
    and "msg \<noteq> []" "strip msg \<noteq> []" "length msg \<le> max_input_length"
  shows "fst (check s now u msg) = (Some (strip msg), None)"
  using assms by (simp add: check_def stamps_def Let_def)

lemma check_rate_limit_limited:
  assumes "rate_limit_per_minute \<le> length (prune now (stamps d u))"
  shows "check_rate_limit d now u = (Some rate_limit_msg, d(u \<mapsto> prune now (stamps d u)))"
  using assms by (simp add: check_rate_limit_def stamps_def)

lemma check_rate_limit_passed:
  assumes "length (prune now (stamps d u)) < rate_limit_per_minute"
  shows "check_rate_limit d now u = (None, d(u \<mapsto> prune now (stamps d u) @ [now]))"
  using assms by (simp add: check_rate_limit_def stamps_def)

text \<open>
  C4. One check of the rate gate, in \<open>Security.check\<close> and in \<open>check_rate_limit\<close>: the
  sender's list is first pruned to the stamps less than 60 seconds old; if at least
  \<open>rate_limit_per_minute\<close> stamps remain, the check fails with the rate-limit error and
  stores the pruned list, with no new stamp; otherwise it appends the clock reading and
  continues (in \<open>Security.check\<close>, to the checks of the message, which return the
  stripped message when it is not blank and not too long). Consequently, from any state
  and after any trace of requests of any senders whose clock readings are not after \<open>t\<close>:
  the request of a sender at \<open>t\<close> is rejected exactly when at least
  \<open>rate_limit_per_minute\<close> of its stamps (those stored before the trace and those of its
  requests that the gate accepted in the trace) are less than 60 seconds old at \<open>t\<close>, so
  it is rejected when that many of its requests were accepted within the 60 seconds
  before \<open>t\<close>; a request that was itself rejected left no stamp and does not count. And
  once the window has rolled past the earlier stamps, that is when every one of these
  stamps is at least 60 seconds old at \<open>t'\<close>, the request at \<open>t'\<close> is accepted and leaves
  its own stamp only.
\<close>

theorem rate_gate:
  shows "(rate_limit_per_minute \<le> length (prune now (stamps (requests s) u)) \<longrightarrow>
            check s now u msg
              = ((None, Some rate_limit_msg),
                 s\<lparr>requests := (requests s)(u \<mapsto> prune now (stamps (requests s) u))\<rparr>))
       \<and> (length (prune now (stamps (requests s) u)) < rate_limit_per_minute \<longrightarrow>
            requests (snd (check s now u msg)) u = Some (prune now (stamps (requests s) u) @ [now])
            \<and> snd (fst (check s now u msg)) \<noteq> Some rate_limit_msg
            \<and> (msg \<noteq> [] \<and> strip msg \<noteq> [] \<and> length msg \<le> max_input_length \<longrightarrow>
                 fst (check s now u msg) = (Some (strip msg), None)))
       \<and> (rate_limit_per_minute \<le> length (prune now (stamps d u)) \<longrightarrow>
            check_rate_limit d now u = (Some rate_limit_msg, d(u \<mapsto> prune now (stamps d u))))
       \<and> (length (prune now (stamps d u)) < rate_limit_per_minute \<longrightarrow>
            check_rate_limit d now u = (None, d(u \<mapsto> prune now (stamps d u) @ [now])))
       \<and> (list_all (\<lambda>e. time_of e \<le> t) evs \<longrightarrow>
            (snd (fst (check (run_checks s evs) t u msg)) = Some rate_limit_msg
               \<longleftrightarrow> rate_limit_per_minute
                     \<le> length (prune t (stamps (requests s) u @ accepted_checks s u evs)))
            \<and> (rate_limit_per_minute \<le> length (prune t (accepted_checks s u evs)) \<longrightarrow>
                 fst (check (run_checks s evs) t u msg) = (None, Some rate_limit_msg))
            \<and> (fst (check_rate_limit (run_rate_limits d evs) t u) = Some rate_limit_msg
               \<longleftrightarrow> rate_limit_per_minute
                     \<le> length (prune t (stamps d u @ accepted_rate_limits d u evs)))
            \<and> (rate_limit_per_minute \<le> length (prune t (accepted_rate_limits d u evs)) \<longrightarrow>
                 fst (check_rate_limit (run_rate_limits d evs) t u) = Some rate_limit_msg))
       \<and> (list_all (\<lambda>e. time_of e \<le> t') evs' \<longrightarrow>
            (list_all (\<lambda>x. 60 \<le> t' - x) (stamps (requests s) u @ accepted_checks s u evs') \<longrightarrow>
               snd (fst (check (run_checks s evs') t' u msg)) \<noteq> Some rate_limit_msg
               \<and> requests (snd (check (run_checks s evs') t' u msg)) u = Some [t'])
            \<and> (list_all (\<lambda>x. 60 \<le> t' - x) (stamps d u @ accepted_rate_limits d u evs') \<longrightarrow>
                 check_rate_limit (run_rate_limits d evs') t' u
                   = (None, (run_rate_limits d evs')(u \<mapsto> [t']))))"
proof -
  have A: "snd (fst (check (run_checks s evs) t u msg)) = Some rate_limit_msg
      \<longleftrightarrow> rate_limit_per_minute
            \<le> length (prune t (stamps (requests s) u @ accepted_checks s u evs))"
    if "list_all (\<lambda>e. time_of e \<le> t) evs"
    unfolding check_error_iff window_run_checks [OF that] by (rule refl)
  have A': "fst (check (run_checks s evs) t u msg) = (None, Some rate_limit_msg)"
    if h: "list_all (\<lambda>e. time_of e \<le> t) evs"
      and n: "rate_limit_per_minute \<le> length (prune t (accepted_checks s u evs))"
  proof -
    from n have "rate_limit_per_minute
        \<le> length (prune t (stamps (requests s) u @ accepted_checks s u evs))"
      by (simp add: prune_append)
    then have "rate_limit_per_minute \<le> length (prune t (stamps (requests (run_checks s evs)) u))"
      unfolding window_run_checks [OF h] .
    from check_limited [OF this, of msg] show ?thesis by simp
  qed
  have B: "fst (check_rate_limit (run_rate_limits d evs) t u) = Some rate_limit_msg
      \<longleftrightarrow> rate_limit_per_minute
            \<le> length (prune t (stamps d u @ accepted_rate_limits d u evs))"
    if "list_all (\<lambda>e. time_of e \<le> t) evs"
    unfolding check_rate_limit_error_iff window_run_rate_limits [OF that] by (rule refl)
  have B': "fst (check_rate_limit (run_rate_limits d evs) t u) = Some rate_limit_msg"
    if h: "list_all (\<lambda>e. time_of e \<le> t) evs"
      and n: "rate_limit_per_minute \<le> length (prune t (accepted_rate_limits d u evs))"
  proof -
    from n have "rate_limit_per_minute
        \<le> length (prune t (stamps d u @ accepted_rate_limits d u evs))"
      by (simp add: prune_append)
    then show ?thesis using B [OF h] by simp
  qed
  have C: "snd (fst (check (run_checks s evs') t' u msg)) \<noteq> Some rate_limit_msg
      \<and> requests (snd (check (run_checks s evs') t' u msg)) u = Some [t']"
    if h: "list_all (\<lambda>e. time_of e \<le> t') evs'"
      and o: "list_all (\<lambda>x. 60 \<le> t' - x) (stamps (requests s) u @ accepted_checks s u evs')"
  proof -
    from o have "prune t' (stamps (requests s) u @ accepted_checks s u evs') = []"
      by (rule prune_all_old)
    then have p: "prune t' (stamps (requests (run_checks s evs')) u) = []"
      unfolding window_run_checks [OF h] .
    with check_passed(1,2) [of t' "run_checks s evs'" u msg] limit_pos show ?thesis by simp
  qed
  have D: "check_rate_limit (run_rate_limits d evs') t' u
      = (None, (run_rate_limits d evs')(u \<mapsto> [t']))"
    if h: "list_all (\<lambda>e. time_of e \<le> t') evs'"
      and o: "list_all (\<lambda>x. 60 \<le> t' - x) (stamps d u @ accepted_rate_limits d u evs')"
  proof -
    from o have "prune t' (stamps d u @ accepted_rate_limits d u evs') = []"
      by (rule prune_all_old)
    then have p: "prune t' (stamps (run_rate_limits d evs') u) = []"
      unfolding window_run_rate_limits [OF h] .
    with check_rate_limit_passed [of t' "run_rate_limits d evs'" u] limit_pos show ?thesis by simp
  qed
  show ?thesis
    using check_limited [of now s u msg] check_passed(1,2) [of now s u msg]
      check_clean [of now s u msg] check_rate_limit_limited [of now d u]
      check_rate_limit_passed [of now d u] A A' B B' C D
    by (intro conjI impI) blast+
qed

theorem rate_gate_witness:
  "rate_limit_per_minute \<le> length (prune 30 (stamps [''u'' \<mapsto> replicate 20 0] ''u''))
   \<and> check \<lparr>requests = [''u'' \<mapsto> replicate 20 0], check_count = 20\<rparr> 30 ''u'' ''hi''
       = ((None, Some rate_limit_msg), \<lparr>requests = [''u'' \<mapsto> replicate 20 0], check_count = 20\<rparr>)
   \<and> check_rate_limit [''u'' \<mapsto> replicate 20 0] 30 ''u''
       = (Some rate_limit_msg, [''u'' \<mapsto> replicate 20 0])
   \<and> length (prune 0 (stamps (requests Security) ''u'')) < rate_limit_per_minute
   \<and> '' hi '' \<noteq> [] \<and> strip '' hi '' \<noteq> [] \<and> length '' hi '' \<le> max_input_length
   \<and> requests (snd (check Security 0 ''u'' '' hi '')) ''u'' = Some [0]
   \<and> fst (check Security 0 ''u'' '' hi '') = (Some ''hi'', None)
   \<and> check_rate_limit Map.empty 0 ''u'' = (None, [''u'' \<mapsto> [0]])
   \<and> list_all (\<lambda>e. time_of e \<le> 30) (replicate 20 (''u'', 0, ''hi''))
   \<and> rate_limit_per_minute
       \<le> length (prune 30 (accepted_checks Security ''u'' (replicate 20 (''u'', 0, ''hi''))))
   \<and> rate_limit_per_minute
       \<le> length (prune 30 (accepted_rate_limits Map.empty ''u'' (replicate 20 (''u'', 0, ''hi''))))
   \<and> fst (check (run_checks Security (replicate 20 (''u'', 0, ''hi''))) 30 ''u'' ''hi'')
       = (None, Some rate_limit_msg)
   \<and> fst (check_rate_limit (run_rate_limits Map.empty (replicate 20 (''u'', 0, ''hi''))) 30 ''u'')
       = Some rate_limit_msg
   \<and> list_all (\<lambda>e. time_of e \<le> 60) (replicate 20 (''u'', 0, ''hi'') @ [(''u'', 30, ''hi'')])
   \<and> list_all (\<lambda>x. 60 \<le> 60 - x)
        (stamps (requests Security) ''u''
         @ accepted_checks Security ''u'' (replicate 20 (''u'', 0, ''hi'') @ [(''u'', 30, ''hi'')]))
   \<and> list_all (\<lambda>x. 60 \<le> 60 - x)
        (stamps Map.empty ''u''
         @ accepted_rate_limits Map.empty ''u'' (replicate 20 (''u'', 0, ''hi'') @ [(''u'', 30, ''hi'')]))
   \<and> requests (snd (check (run_checks Security (replicate 20 (''u'', 0, ''hi'') @ [(''u'', 30, ''hi'')]))
                60 ''u'' ''hi'')) ''u'' = Some [60]
   \<and> fst (check_rate_limit
            (run_rate_limits Map.empty (replicate 20 (''u'', 0, ''hi'') @ [(''u'', 30, ''hi'')]))
            60 ''u'') = None"
proof -
  let ?evs = "replicate 20 (''u'', 0::real, ''hi'')"
  let ?evs' = "replicate 20 (''u'', 0::real, ''hi'') @ [(''u'', 30, ''hi'')]"
  let ?full = "[''u'' \<mapsto> replicate 20 (0::real)]"
  have p30: "prune 30 (stamps ?full ''u'') = replicate 20 0"
    by (simp add: prune_def stamps_def)
  have h1: "rate_limit_per_minute \<le> length (prune 30 (stamps ?full ''u''))"
    unfolding p30 by (simp add: rate_limit_per_minute_def)
  have h2: "length (prune 0 (stamps (requests Security) ''u'')) < rate_limit_per_minute"
    by (simp add: prune_def stamps_def Security_def rate_limit_per_minute_def)
  have st: "strip '' hi '' = ''hi''"
    by (simp add: strip_def py_isspace_def)
  have h3: "'' hi '' \<noteq> [] \<and> strip '' hi '' \<noteq> [] \<and> length '' hi '' \<le> max_input_length"
    by (simp add: st max_input_length_def)
  have a1: "accepted_checks Security ''u'' ?evs = replicate 20 0" by code_simp
  have a2: "accepted_rate_limits Map.empty ''u'' ?evs = replicate 20 0" by code_simp
  have a3: "accepted_checks Security ''u'' ?evs' = replicate 20 0" by code_simp
  have a4: "accepted_rate_limits Map.empty ''u'' ?evs' = replicate 20 0" by code_simp
  have t: "list_all (\<lambda>e. time_of e \<le> 30) ?evs"
    by (simp add: list_all_iff time_of_def)
  have n1: "rate_limit_per_minute \<le> length (prune 30 (accepted_checks Security ''u'' ?evs))"
    unfolding a1 by (simp add: prune_def rate_limit_per_minute_def)
  have n2: "rate_limit_per_minute \<le> length (prune 30 (accepted_rate_limits Map.empty ''u'' ?evs))"
    unfolding a2 by (simp add: prune_def rate_limit_per_minute_def)
  have t': "list_all (\<lambda>e. time_of e \<le> 60) ?evs'"
    by (simp add: list_all_iff time_of_def)
  have o1: "list_all (\<lambda>x. 60 \<le> 60 - x) (stamps (requests Security) ''u'' @ accepted_checks Security ''u'' ?evs')"
    unfolding a3 by (simp add: stamps_def Security_def list_all_iff)
  have o2: "list_all (\<lambda>x. 60 \<le> 60 - x) (stamps Map.empty ''u'' @ accepted_rate_limits Map.empty ''u'' ?evs')"
    unfolding a4 by (simp add: stamps_def list_all_iff)
  have 1: "check \<lparr>requests = ?full, check_count = 20\<rparr> 30 ''u'' ''hi''
       = ((None, Some rate_limit_msg), \<lparr>requests = ?full, check_count = 20\<rparr>)"
    using rate_gate [where now = 30 and s = "\<lparr>requests = ?full, check_count = 20\<rparr>"
        and u = "''u''" and msg = "''hi''"] h1
    by (simp add: p30)
  have 2: "check_rate_limit ?full 30 ''u'' = (Some rate_limit_msg, ?full)"
    using rate_gate [where now = 30 and u = "''u''" and d = ?full] h1 by (simp add: p30)
  have 3: "requests (snd (check Security 0 ''u'' '' hi '')) ''u'' = Some [0]
      \<and> fst (check Security 0 ''u'' '' hi '') = (Some ''hi'', None)"
    using rate_gate [where now = 0 and s = Security and u = "''u''" and msg = "'' hi ''"] h2 h3
    by (simp add: st prune_def stamps_def Security_def)
  have 4: "check_rate_limit Map.empty 0 ''u'' = (None, [''u'' \<mapsto> [0]])"
    using rate_gate [where now = 0 and u = "''u''" and d = Map.empty] h2
    by (simp add: prune_def stamps_def Security_def)
  have 5: "fst (check (run_checks Security ?evs) 30 ''u'' ''hi'') = (None, Some rate_limit_msg)
      \<and> fst (check_rate_limit (run_rate_limits Map.empty ?evs) 30 ''u'') = Some rate_limit_msg"
    using rate_gate [where s = Security and u = "''u''" and msg = "''hi''" and d = Map.empty
        and evs = ?evs and t = 30] t n1 n2 by blast
  have 6: "requests (snd (check (run_checks Security ?evs') 60 ''u'' ''hi'')) ''u'' = Some [60]
      \<and> check_rate_limit (run_rate_limits Map.empty ?evs') 60 ''u''
          = (None, (run_rate_limits Map.empty ?evs')(''u'' \<mapsto> [60]))"
    using rate_gate [where s = Security and u = "''u''" and msg = "''hi''" and d = Map.empty
        and evs' = ?evs' and t' = 60] t' o1 o2 by blast
  from 6 have 7: "fst (check_rate_limit (run_rate_limits Map.empty ?evs') 60 ''u'') = None"
    by simp
  from h1 h2 h3 t n1 n2 t' o1 o2 1 2 3 4 5 6 7 st show ?thesis by simp
qed

text \<open>
  The claim as stated counts the requests a sender issued. On a fresh gate a sender makes
  19 requests at clock reading 0, which are accepted, and 20 requests at clock reading 11,
  of which the first is accepted and the other 19 are rejected (there are 20 stamps less
  than 60 seconds old) and leave no stamp. Its next request, at clock reading 70, comes
  after 20 requests issued within the last 60 seconds, and it is accepted: the stamps of
  clock reading 0 have left the window and one stamp remains.
\<close>

theorem rate_gate_counterexample:
  "fst (check_rate_limit
          (run_rate_limits Map.empty
             (replicate 19 (''u'', 0, ''hi'') @ replicate 20 (''u'', 11, ''hi''))) 70 ''u'') = None
   \<and> snd (check_rate_limit
          (run_rate_limits Map.empty
             (replicate 19 (''u'', 0, ''hi'') @ replicate 20 (''u'', 11, ''hi''))) 70 ''u'') ''u''
       = Some [11, 70]
   \<and> fst (check
          (run_checks Security
             (replicate 19 (''u'', 0, ''hi'') @ replicate 20 (''u'', 11, ''hi''))) 70 ''u'' ''hi'')
       = (Some ''hi'', None)
   \<and> requests (snd (check
          (run_checks Security
             (replicate 19 (''u'', 0, ''hi'') @ replicate 20 (''u'', 11, ''hi''))) 70 ''u'' ''hi'')) ''u''
       = Some [11, 70]
   \<and> accepted_rate_limits Map.empty ''u''
        (replicate 19 (''u'', 0, ''hi'') @ replicate 20 (''u'', 11, ''hi''))
       = replicate 19 0 @ [11]
   \<and> accepted_checks Security ''u''
        (replicate 19 (''u'', 0, ''hi'') @ replicate 20 (''u'', 11, ''hi''))
       = replicate 19 0 @ [11]"
  by code_simp
section \<open>Properties of the daily quota\<close>

lemma quota_key_inj:
  assumes "length d1 = length d2"
  shows "quota_key s1 d1 = quota_key s2 d2 \<longleftrightarrow> s1 = s2 \<and> d1 = d2"
proof
  assume "quota_key s1 d1 = quota_key s2 d2"
  then have "s1 @ (''_'' @ d1) = s2 @ (''_'' @ d2)" by (simp add: quota_key_def)
  moreover have "length (''_'' @ d1) = length (''_'' @ d2)" using assms by simp
  ultimately show "s1 = s2 \<and> d1 = d2" by (metis append_eq_append_conv same_append_eq)
qed simp

lemma check_daily_quota_free:
  assumes "tier \<noteq> ''premium''"
  shows "ctx_get (snd (check_daily_quota st d u tier)) (quota_key u d) 0
       = (if free_tweets_per_day \<le> ctx_get st (quota_key u d) 0 then ctx_get st (quota_key u d) 0
          else ctx_get st (quota_key u d) 0 + 1)"
  using assms by (simp add: check_daily_quota_def Let_def ctx_get_def ctx_set_def)

lemma check_daily_quota_other:
  assumes "quota_key v d2 \<noteq> k"
  shows "ctx_get (snd (check_daily_quota st d2 v tier)) k 0 = ctx_get st k 0"
  using assms by (simp add: check_daily_quota_def Let_def ctx_get_def ctx_set_def)

lemma run_quota_count:
  "free_trace u d evs \<Longrightarrow> ctx_get st (quota_key u d) 0 \<le> free_tweets_per_day \<Longrightarrow>
     ctx_get (run_quota st evs) (quota_key u d) 0
       = min (ctx_get st (quota_key u d) 0 + int (requests_on u d evs)) free_tweets_per_day"
proof (induction evs arbitrary: st)
  case Nil
  then show ?case by (simp add: requests_on_def)
next
  case (Cons e evs)
  obtain v d2 tier where e: "e = (v, d2, tier)" by (cases e)
  let ?st = "snd (check_daily_quota st d2 v tier)"
  from Cons.prems e have ft: "free_trace u d evs" and len: "length d2 = length d"
    and np: "\<not> (v = u \<and> d2 = d \<and> tier = ''premium'')"
    by (simp_all add: free_trace_def)
  show ?case
  proof (cases "v = u \<and> d2 = d")
    case True
    with np have t: "tier \<noteq> ''premium''" by simp
    have c: "ctx_get ?st (quota_key u d) 0
       = (if free_tweets_per_day \<le> ctx_get st (quota_key u d) 0 then ctx_get st (quota_key u d) 0
          else ctx_get st (quota_key u d) 0 + 1)"
      using True check_daily_quota_free [OF t, of st d u] by simp
    with Cons.prems have "ctx_get ?st (quota_key u d) 0 \<le> free_tweets_per_day" by simp
    from Cons.IH [OF ft this] c Cons.prems(2) True e show ?thesis
      by (auto simp: requests_on_def min_def)
  next
    case False
    with len have "quota_key v d2 \<noteq> quota_key u d" by (simp add: quota_key_inj)
    then have c: "ctx_get ?st (quota_key u d) 0 = ctx_get st (quota_key u d) 0"
      by (rule check_daily_quota_other)
    with Cons.prems have "ctx_get ?st (quota_key u d) 0 \<le> free_tweets_per_day" by simp
    from Cons.IH [OF ft this] c False e show ?thesis
      by (auto simp: requests_on_def)
  qed
qed

text \<open>
  C5. For a sender \<open>u\<close> whose requests on day \<open>d\<close> are never at the premium tier, from a
  store with no counter yet for \<open>(u, d)\<close> and after any trace of quota checks of any
  senders on any days: the next free-tier request of \<open>u\<close> on day \<open>d\<close> is allowed, and
  counted, exactly when \<open>u\<close> has made fewer than \<open>free_tweets_per_day\<close> requests on day
  \<open>d\<close> so far, and is rejected with the free-tier message, leaving the store as it is,
  otherwise. So the first \<open>N\<close> requests of a day are allowed and the \<open>(N+1)\<close>-th is
  rejected; and since the requests of another day string do not count for \<open>d\<close>, the
  first request of the next day is allowed again.
\<close>

theorem daily_quota:
  "free_trace u d evs \<and> st (quota_key u d) = None \<longrightarrow>
     (int (requests_on u d evs) < free_tweets_per_day \<longrightarrow>
        check_daily_quota (run_quota st evs) d u ''free''
          = ((True, None),
             ctx_set (run_quota st evs) (quota_key u d) (int (requests_on u d evs) + 1)))
     \<and> (free_tweets_per_day \<le> int (requests_on u d evs) \<longrightarrow>
        check_daily_quota (run_quota st evs) d u ''free''
          = ((False, Some (free_quota_msg free_tweets_per_day)), run_quota st evs))"
proof (intro impI, elim conjE)
  assume ft: "free_trace u d evs" and none: "st (quota_key u d) = None"
  from none have c0: "ctx_get st (quota_key u d) 0 = 0" by (simp add: ctx_get_def)
  then have "ctx_get st (quota_key u d) 0 \<le> free_tweets_per_day"
    by (simp add: free_tweets_per_day_def)
  from run_quota_count [OF ft this] c0
  have c: "ctx_get (run_quota st evs) (quota_key u d) 0
      = min (int (requests_on u d evs)) free_tweets_per_day"
    by simp
  show "(int (requests_on u d evs) < free_tweets_per_day \<longrightarrow>
        check_daily_quota (run_quota st evs) d u ''free''
          = ((True, None),
             ctx_set (run_quota st evs) (quota_key u d) (int (requests_on u d evs) + 1)))
     \<and> (free_tweets_per_day \<le> int (requests_on u d evs) \<longrightarrow>
        check_daily_quota (run_quota st evs) d u ''free''
          = ((False, Some (free_quota_msg free_tweets_per_day)), run_quota st evs))"
    using c by (auto simp: check_daily_quota_def Let_def)
qed

theorem daily_quota_witness:
  "free_trace ''alice'' ''2026-01-01''
     [(''alice'', ''2026-01-01'', ''free''), (''bob'', ''2026-01-01'', ''premium''),
      (''alice'', ''2026-01-01'', ''free'')]
   \<and> fst (check_daily_quota (run_quota Map.empty
        [(''alice'', ''2026-01-01'', ''free''), (''bob'', ''2026-01-01'', ''premium''),
         (''alice'', ''2026-01-01'', ''free'')]) ''2026-01-01'' ''alice'' ''free'') = (True, None)
   \<and> free_trace ''alice'' ''2026-01-01''
     [(''alice'', ''2026-01-01'', ''free''), (''bob'', ''2026-01-01'', ''premium''),
      (''alice'', ''2026-01-01'', ''free''), (''alice'', ''2026-01-01'', ''free'')]
   \<and> fst (fst (check_daily_quota (run_quota Map.empty
        [(''alice'', ''2026-01-01'', ''free''), (''bob'', ''2026-01-01'', ''premium''),
         (''alice'', ''2026-01-01'', ''free''), (''alice'', ''2026-01-01'', ''free'')])
        ''2026-01-01'' ''alice'' ''free'')) = False
   \<and> free_trace ''alice'' ''2026-01-02''
     [(''alice'', ''2026-01-01'', ''free''), (''bob'', ''2026-01-01'', ''premium''),
      (''alice'', ''2026-01-01'', ''free''), (''alice'', ''2026-01-01'', ''free'')]
   \<and> fst (check_daily_quota (run_quota Map.empty
        [(''alice'', ''2026-01-01'', ''free''), (''bob'', ''2026-01-01'', ''premium''),
         (''alice'', ''2026-01-01'', ''free''), (''alice'', ''2026-01-01'', ''free'')])
        ''2026-01-02'' ''alice'' ''free'') = (True, None)"
proof -
  let ?e2 = "[(''alice'', ''2026-01-01'', ''free''), (''bob'', ''2026-01-01'', ''premium''),
      (''alice'', ''2026-01-01'', ''free'')]"
  let ?e3 = "[(''alice'', ''2026-01-01'', ''free''), (''bob'', ''2026-01-01'', ''premium''),
      (''alice'', ''2026-01-01'', ''free''), (''alice'', ''2026-01-01'', ''free'')]"
  have f2: "free_trace ''alice'' ''2026-01-01'' ?e2" by (simp add: free_trace_def)
  have f3: "free_trace ''alice'' ''2026-01-01'' ?e3" by (simp add: free_trace_def)
  have g3: "free_trace ''alice'' ''2026-01-02'' ?e3" by (simp add: free_trace_def)
  have n2: "requests_on ''alice'' ''2026-01-01'' ?e2 = 2" by (simp add: requests_on_def)
  have n3: "requests_on ''alice'' ''2026-01-01'' ?e3 = 3" by (simp add: requests_on_def)
  have m3: "requests_on ''alice'' ''2026-01-02'' ?e3 = 0" by (simp add: requests_on_def)
  have 1: "fst (check_daily_quota (run_quota Map.empty ?e2) ''2026-01-01'' ''alice'' ''free'')
      = (True, None)"
    using daily_quota [of "''alice''" "''2026-01-01''" ?e2 Map.empty] f2 n2
    by (simp add: free_tweets_per_day_def)
  have 2: "fst (fst (check_daily_quota (run_quota Map.empty ?e3) ''2026-01-01'' ''alice'' ''free''))
      = False"
    using daily_quota [of "''alice''" "''2026-01-01''" ?e3 Map.empty] f3 n3
    by (simp add: free_tweets_per_day_def)
  have 3: "fst (check_daily_quota (run_quota Map.empty ?e3) ''2026-01-02'' ''alice'' ''free'')
      = (True, None)"
    using daily_quota [of "''alice''" "''2026-01-02''" ?e3 Map.empty] g3 m3
    by (simp add: free_tweets_per_day_def)
  from f2 f3 g3 1 2 3 show ?thesis by blast
qed

section \<open>Properties of the price alerts\<close>

lemma notes_for_append:
  "notes_for o' i (out @ [n]) = notes_for o' i out + (if note_to n = o' \<and> note_alert n = i then 1 else 0)"
  by (simp add: notes_for_def)

lemma ids_okD: "ids_ok al \<Longrightarrow> j < length al \<Longrightarrow> alert_id (al ! j) = int j + 1"
proof -
  assume a: "ids_ok al" "j < length al"
  then have "map alert_id al ! j = map (\<lambda>j. int j + 1) [0..<length al] ! j"
    by (simp add: ids_ok_def)
  with a(2) show ?thesis by simp
qed

lemma ids_ok_update: "ids_ok al \<Longrightarrow> ids_ok (al[i := (al ! i)\<lparr>triggered := True\<rparr>])"
proof -
  have "map alert_id (al[i := (al ! i)\<lparr>triggered := True\<rparr>]) = map alert_id al"
    by (cases "i < length al") (auto simp: list_eq_iff_nth_eq nth_list_update)
  then show "ids_ok al \<Longrightarrow> ids_ok (al[i := (al ! i)\<lparr>triggered := True\<rparr>])"
    by (simp add: ids_ok_def)
qed

lemma record_stat_simps [simp]:
  "alerts_of (record_stat s k) = alerts_of s"
  "alert_owners (record_stat s k) = alert_owners s"
  "outbox (record_stat s k) = outbox s"
  by (simp_all add: record_stat_def Let_def)

lemma fired_record_stat [simp]: "fired (record_stat s k) = fired s"
  by (simp add: fired_def fun_eq_iff)

lemma trading_inv_record_stat: "trading_inv s \<Longrightarrow> trading_inv (record_stat s k)"
  by (simp add: trading_inv_def)

lemma check_alert_at_cases:
  obtains (same) "check_alert_at fd owner (al, s) i = (al, s)"
      "\<not> (case fd owner (al ! i) of None \<Rightarrow> False | Some p \<Rightarrow> condition_met (al ! i) p)"
  | (hit) p s' where "fd owner (al ! i) = Some p" "condition_met (al ! i) p"
      "check_alert_at fd owner (al, s) i = (al[i := (al ! i)\<lparr>triggered := True\<rparr>], s')"
      "alerts_of s' = (alerts_of s)(owner := al[i := (al ! i)\<lparr>triggered := True\<rparr>])"
      "alert_owners s' = alert_owners s"
      "outbox s' = outbox s @ [\<lparr>note_to = owner, note_alert = alert_id (al ! i),
           note_token = token (al ! i), note_condition = condition (al ! i),
           note_threshold = threshold (al ! i), note_price = p\<rparr>]"
proof (cases "fd owner (al ! i)")
  case None
  then show ?thesis by (intro same) (simp_all add: check_alert_at_def)
next
  case (Some p)
  show ?thesis
  proof (cases "condition_met (al ! i) p")
    case True
    with Some show ?thesis
      by (intro hit [where p = p and s' = "snd (check_alert_at fd owner (al, s) i)"])
        (simp_all add: check_alert_at_def Let_def)
  next
    case False
    with Some show ?thesis by (intro same) (simp_all add: check_alert_at_def)
  qed
qed

lemma fired_update:
  assumes "alerts_of s' = (alerts_of s)(owner := al[i := (al ! i)\<lparr>triggered := True\<rparr>])"
    and "alerts_of s owner = al" and "i < length al"
  shows "fired s' o' i' = (fired s o' i' \<or> (o' = owner \<and> i' = int i + 1))"
proof (cases "o' = owner")
  case False
  with assms show ?thesis by (simp add: fired_def)
next
  case True
  show ?thesis
  proof (cases "i' = int i + 1")
    case eq: True
    with assms True show ?thesis by (simp add: fired_def)
  next
    case ne: False
    then have "0 < i' \<Longrightarrow> nat (i' - 1) \<noteq> i" by auto
    with assms True ne show ?thesis by (auto simp: fired_def)
  qed
qed

lemma step_inv:
  assumes inv: "trading_inv s" and al: "alerts_of s owner = al" and i: "i < length al"
    and nt: "\<not> triggered (al ! i)"
    and r: "check_alert_at fd owner (al, s) i = (al', s')"
  shows "trading_inv s'" and "alerts_of s' owner = al'" and "length al' = length al"
    and "\<forall>j. j \<noteq> i \<longrightarrow> al' ! j = al ! j"
    and "al' ! i = (if (case fd owner (al ! i) of None \<Rightarrow> False | Some p \<Rightarrow> condition_met (al ! i) p)
                    then (al ! i)\<lparr>triggered := True\<rparr> else al ! i)"
    and "\<forall>o'. o' \<noteq> owner \<longrightarrow> alerts_of s' o' = alerts_of s o'"
    and "alert_owners s' = alert_owners s"
proof -
  have "trading_inv s' \<and> alerts_of s' owner = al' \<and> length al' = length al
      \<and> (\<forall>j. j \<noteq> i \<longrightarrow> al' ! j = al ! j)
      \<and> al' ! i = (if (case fd owner (al ! i) of None \<Rightarrow> False | Some p \<Rightarrow> condition_met (al ! i) p)
                    then (al ! i)\<lparr>triggered := True\<rparr> else al ! i)
      \<and> (\<forall>o'. o' \<noteq> owner \<longrightarrow> alerts_of s' o' = alerts_of s o')
      \<and> alert_owners s' = alert_owners s"
  proof (rule check_alert_at_cases [where fd = fd and owner = owner and al = al and s = s and i = i],
      goal_cases same hit)
    case same
    with r inv al show ?case by simp
  next
    case (hit p s1)
    let ?al = "al[i := (al ! i)\<lparr>triggered := True\<rparr>]"
    from hit r have eq: "al' = ?al" "s' = s1" by simp_all
    have f: "fired s1 o' i' = (fired s o' i' \<or> (o' = owner \<and> i' = int i + 1))" for o' i'
      using hit(4) al i by (rule fired_update)
    from inv have ids: "ids_ok al" using al by (auto simp: trading_inv_def)
    then have id: "alert_id (al ! i) = int i + 1" using i by (rule ids_okD)
    have nf: "\<not> fired s owner (int i + 1)" using al nt by (simp add: fired_def)
    have n: "notes_for o' i' (outbox s1)
        = notes_for o' i' (outbox s) + (if o' = owner \<and> i' = int i + 1 then 1 else 0)" for o' i'
      unfolding hit(6) notes_for_append by (simp add: id)
    have "trading_inv s1"
      unfolding trading_inv_def
    proof (intro conjI allI impI)
      show "distinct (alert_owners s1)" using inv hit(5) by (simp add: trading_inv_def)
    next
      fix o' assume "alerts_of s1 o' \<noteq> []"
      then have "alerts_of s o' \<noteq> []" using hit(4) al by (cases "o' = owner") auto
      with inv hit(5) show "o' \<in> set (alert_owners s1)" by (simp add: trading_inv_def)
    next
      fix o' show "ids_ok (alerts_of s1 o')"
        using inv hit(4) ids ids_ok_update [OF ids, of i]
        by (cases "o' = owner") (simp_all add: trading_inv_def)
    next
      fix o' i'
      from inv have "notes_for o' i' (outbox s) = (if fired s o' i' then 1 else 0)"
        by (simp add: trading_inv_def)
      with n [of o' i'] f [of o' i'] nf
      show "notes_for o' i' (outbox s1) = (if fired s1 o' i' then 1 else 0)"
        by auto
    qed
    with eq hit i show ?case by simp
  qed
  then show "trading_inv s'" and "alerts_of s' owner = al'" and "length al' = length al"
    and "\<forall>j. j \<noteq> i \<longrightarrow> al' ! j = al ! j"
    and "al' ! i = (if (case fd owner (al ! i) of None \<Rightarrow> False | Some p \<Rightarrow> condition_met (al ! i) p)
                    then (al ! i)\<lparr>triggered := True\<rparr> else al ! i)"
    and "\<forall>o'. o' \<noteq> owner \<longrightarrow> alerts_of s' o' = alerts_of s o'"
    and "alert_owners s' = alert_owners s"
    by blast+
qed

lemma fold_inv:
  "trading_inv s \<Longrightarrow> alerts_of s owner = al \<Longrightarrow> distinct is \<Longrightarrow>
   \<forall>i \<in> set is. i < length al \<and> \<not> triggered (al ! i) \<Longrightarrow>
   foldl (check_alert_at fd owner) (al, s) is = (al', s') \<Longrightarrow>
     trading_inv s' \<and> alerts_of s' owner = al' \<and> length al' = length al
     \<and> (\<forall>j. al' ! j = (if j \<in> set is \<and> hitp fd owner (al ! j)
                        then (al ! j)\<lparr>triggered := True\<rparr> else al ! j))
     \<and> (\<forall>o'. o' \<noteq> owner \<longrightarrow> alerts_of s' o' = alerts_of s o')
     \<and> alert_owners s' = alert_owners s"
proof (induction "is" arbitrary: al s)
  case Nil
  then show ?case by simp
next
  case (Cons i "is")
  obtain al1 s1 where r: "check_alert_at fd owner (al, s) i = (al1, s1)"
    by (cases "check_alert_at fd owner (al, s) i")
  from Cons.prems have i: "i < length al" "\<not> triggered (al ! i)" "i \<notin> set is" "distinct is"
    by simp_all
  note st = step_inv [OF Cons.prems(1,2) i(1,2) r]
  have rest: "\<forall>k \<in> set is. k < length al1 \<and> \<not> triggered (al1 ! k)"
  proof
    fix k assume k: "k \<in> set is"
    with i(3) have "k \<noteq> i" by auto
    with st(4) have "al1 ! k = al ! k" by simp
    with k Cons.prems(4) st(3) show "k < length al1 \<and> \<not> triggered (al1 ! k)" by simp
  qed
  from Cons.prems(5) r have f: "foldl (check_alert_at fd owner) (al1, s1) is = (al', s')" by simp
  from Cons.IH [OF st(1,2) i(4) rest f]
  have ih: "trading_inv s'" "alerts_of s' owner = al'" "length al' = length al1"
    "\<And>j. al' ! j = (if j \<in> set is \<and> hitp fd owner (al1 ! j)
                        then (al1 ! j)\<lparr>triggered := True\<rparr> else al1 ! j)"
    "\<And>o'. o' \<noteq> owner \<Longrightarrow> alerts_of s' o' = alerts_of s1 o'"
    "alert_owners s' = alert_owners s1"
    by simp_all
  have nth: "al' ! j = (if j \<in> set (i # is) \<and> hitp fd owner (al ! j)
                        then (al ! j)\<lparr>triggered := True\<rparr> else al ! j)" for j
  proof (cases "j = i")
    case True
    with ih(4) [of i] i(3) st(5) show ?thesis by (simp add: hitp_def)
  next
    case False
    with st(4) have "al1 ! j = al ! j" by simp
    with ih(4) [of j] False show ?thesis by simp
  qed
  have "length al' = length al" using ih(3) st(3) by simp
  moreover have "\<forall>o'. o' \<noteq> owner \<longrightarrow> alerts_of s' o' = alerts_of s o'"
    using ih(5) st(6) by simp
  moreover have "alert_owners s' = alert_owners s" using ih(6) st(7) by simp
  ultimately show ?case using ih(1,2) nth by blast
qed

lemma check_owner_inv:
  assumes "trading_inv s"
  shows "trading_inv (check_owner fd s owner)
    \<and> length (alerts_of (check_owner fd s owner) owner) = length (alerts_of s owner)
    \<and> (\<forall>j. j < length (alerts_of s owner) \<longrightarrow>
          alerts_of (check_owner fd s owner) owner ! j
            = (if fires fd owner (alerts_of s owner ! j)
               then (alerts_of s owner ! j)\<lparr>triggered := True\<rparr> else alerts_of s owner ! j))
    \<and> (\<forall>o'. o' \<noteq> owner \<longrightarrow> alerts_of (check_owner fd s owner) o' = alerts_of s o')
    \<and> alert_owners (check_owner fd s owner) = alert_owners s"
proof -
  define al where "al = alerts_of s owner"
  define idx where "idx = filter (\<lambda>i. active (al ! i) \<and> \<not> triggered (al ! i)) [0..<length al]"
  obtain al' s' where r: "foldl (check_alert_at fd owner) (al, s) idx = (al', s')"
    by (cases "foldl (check_alert_at fd owner) (al, s) idx")
  have d: "distinct idx" unfolding idx_def by simp
  have m: "\<forall>i \<in> set idx. i < length al \<and> \<not> triggered (al ! i)" unfolding idx_def by simp
  have al: "alerts_of s owner = al" by (simp add: al_def)
  from fold_inv [OF assms al d m r]
  have f: "trading_inv s'" "alerts_of s' owner = al'" "length al' = length al"
    "\<And>j. al' ! j = (if j \<in> set idx \<and> hitp fd owner (al ! j)
                        then (al ! j)\<lparr>triggered := True\<rparr> else al ! j)"
    "\<And>o'. o' \<noteq> owner \<Longrightarrow> alerts_of s' o' = alerts_of s o'"
    "alert_owners s' = alert_owners s"
    by blast+
  have fr: "(j \<in> set idx \<and> hitp fd owner (al ! j)) = fires fd owner (al ! j)"
    if "j < length al" for j
    using that unfolding idx_def by (auto simp: fires_def hitp_def)
  have co: "check_owner fd s owner = (if idx = [] then s else s')"
    using r unfolding check_owner_def Let_def al_def [symmetric] idx_def [symmetric] by simp
  show ?thesis
  proof (cases "idx = []")
    case True
    have "\<not> fires fd owner (al ! j)" if "j < length al" for j
      using fr [OF that] True by simp
    with assms True show ?thesis by (simp add: co al)
  next
    case False
    have "al' ! j = (if fires fd owner (al ! j) then (al ! j)\<lparr>triggered := True\<rparr> else al ! j)"
      if "j < length al" for j
      using f(4) [of j] fr [OF that] by simp
    with f False show ?thesis by (simp add: co al)
  qed
qed

lemma owners_fold:
  "trading_inv s \<Longrightarrow> distinct os \<Longrightarrow>
     trading_inv (foldl (check_owner fd) s os)
     \<and> alert_owners (foldl (check_owner fd) s os) = alert_owners s
     \<and> (\<forall>ow. length (alerts_of (foldl (check_owner fd) s os) ow) = length (alerts_of s ow)
            \<and> (\<forall>j. j < length (alerts_of s ow) \<longrightarrow>
                  alerts_of (foldl (check_owner fd) s os) ow ! j
                    = (if ow \<in> set os \<and> fires fd ow (alerts_of s ow ! j)
                       then (alerts_of s ow ! j)\<lparr>triggered := True\<rparr> else alerts_of s ow ! j)))"
proof (induction os arbitrary: s)
  case Nil
  then show ?case by simp
next
  case (Cons o1 os)
  let ?s1 = "check_owner fd s o1"
  let ?s' = "foldl (check_owner fd) ?s1 os"
  from check_owner_inv [OF Cons.prems(1), of fd o1]
  have c: "trading_inv ?s1" "length (alerts_of ?s1 o1) = length (alerts_of s o1)"
    "\<And>j. j < length (alerts_of s o1) \<Longrightarrow> alerts_of ?s1 o1 ! j
        = (if fires fd o1 (alerts_of s o1 ! j)
           then (alerts_of s o1 ! j)\<lparr>triggered := True\<rparr> else alerts_of s o1 ! j)"
    "\<And>o'. o' \<noteq> o1 \<Longrightarrow> alerts_of ?s1 o' = alerts_of s o'"
    "alert_owners ?s1 = alert_owners s"
    by blast+
  from Cons.prems(2) have d: "distinct os" "o1 \<notin> set os" by simp_all
  from Cons.IH [OF c(1) d(1)]
  have ih: "trading_inv ?s'" "alert_owners ?s' = alert_owners ?s1"
    "\<And>ow. length (alerts_of ?s' ow) = length (alerts_of ?s1 ow)"
    "\<And>ow j. j < length (alerts_of ?s1 ow) \<Longrightarrow> alerts_of ?s' ow ! j
        = (if ow \<in> set os \<and> fires fd ow (alerts_of ?s1 ow ! j)
           then (alerts_of ?s1 ow ! j)\<lparr>triggered := True\<rparr> else alerts_of ?s1 ow ! j)"
    by blast+
  have len: "length (alerts_of ?s' ow) = length (alerts_of s ow)" for ow
    using ih(3) [of ow] c(2) c(4) [of ow] by (cases "ow = o1") simp_all
  have nth: "alerts_of ?s' ow ! j
        = (if ow \<in> set (o1 # os) \<and> fires fd ow (alerts_of s ow ! j)
           then (alerts_of s ow ! j)\<lparr>triggered := True\<rparr> else alerts_of s ow ! j)"
    if j: "j < length (alerts_of s ow)" for ow j
  proof (cases "ow = o1")
    case True
    with j c(2) have "j < length (alerts_of ?s1 o1)" by simp
    from ih(4) [OF this] d(2) have "alerts_of ?s' o1 ! j = alerts_of ?s1 o1 ! j" by simp
    with c(3) [of j] j True show ?thesis by simp
  next
    case False
    with c(4) have e: "alerts_of ?s1 ow = alerts_of s ow" by simp
    with ih(4) [of j ow] j False show ?thesis by simp
  qed
  have "foldl (check_owner fd) s (o1 # os) = ?s'" by simp
  with ih(1,2) c(5) len nth show ?case by presburger
qed

lemma check_alerts_char:
  assumes inv: "trading_inv s"
  shows "trading_inv (check_alerts fd s)"
    and "alert_owners (check_alerts fd s) = alert_owners s"
    and "length (alerts_of (check_alerts fd s) ow) = length (alerts_of s ow)"
    and "j < length (alerts_of s ow) \<Longrightarrow>
          alerts_of (check_alerts fd s) ow ! j
            = (if fires fd ow (alerts_of s ow ! j)
               then (alerts_of s ow ! j)\<lparr>triggered := True\<rparr> else alerts_of s ow ! j)"
proof -
  have listed: "ow \<in> set (alert_owners s)" if "j < length (alerts_of s ow)" for ow j
  proof -
    from that have "alerts_of s ow \<noteq> []" by auto
    with inv show ?thesis by (simp add: trading_inv_def)
  qed
  have "trading_inv (check_alerts fd s) \<and> alert_owners (check_alerts fd s) = alert_owners s
      \<and> (\<forall>ow. length (alerts_of (check_alerts fd s) ow) = length (alerts_of s ow)
           \<and> (\<forall>j. j < length (alerts_of s ow) \<longrightarrow>
                 alerts_of (check_alerts fd s) ow ! j
                   = (if fires fd ow (alerts_of s ow ! j)
                      then (alerts_of s ow ! j)\<lparr>triggered := True\<rparr> else alerts_of s ow ! j)))"
  proof (cases "alert_owners s = []")
    case True
    then have c: "check_alerts fd s = s" by (simp add: check_alerts_def)
    from True listed have "\<not> j < length (alerts_of s ow)" for ow j by fastforce
    with inv show ?thesis unfolding c by simp
  next
    case False
    let ?s0 = "record_stat s ''checks_run''"
    from False have c: "check_alerts fd s = foldl (check_owner fd) ?s0 (alert_owners s)"
      by (simp add: check_alerts_def Let_def)
    have i0: "trading_inv ?s0" using inv by (rule trading_inv_record_stat)
    have d: "distinct (alert_owners s)" using inv by (simp add: trading_inv_def)
    from owners_fold [OF i0 d, of fd] listed show ?thesis
      unfolding c by simp
  qed
  then show "trading_inv (check_alerts fd s)"
    and "alert_owners (check_alerts fd s) = alert_owners s"
    and "length (alerts_of (check_alerts fd s) ow) = length (alerts_of s ow)"
    and "j < length (alerts_of s ow) \<Longrightarrow>
          alerts_of (check_alerts fd s) ow ! j
            = (if fires fd ow (alerts_of s ow ! j)
               then (alerts_of s ow ! j)\<lparr>triggered := True\<rparr> else alerts_of s ow ! j)"
    by blast+
qed

lemma fired_sweep:
  assumes "trading_inv s"
  shows "fired (check_alerts fd s) ow i
       = (fired s ow i \<or> (0 < i \<and> i \<le> int (length (alerts_of s ow))
                            \<and> fires fd ow (alerts_of s ow ! nat (i - 1))))"
proof (cases "0 < i \<and> i \<le> int (length (alerts_of s ow))")
  case False
  then show ?thesis
    using check_alerts_char(3) [OF assms, of fd ow] by (auto simp: fired_def)
next
  case True
  then have j: "nat (i - 1) < length (alerts_of s ow)" by auto
  from check_alerts_char(4) [OF assms j, of fd] check_alerts_char(3) [OF assms, of fd ow] True
  show ?thesis by (auto simp: fired_def fires_def)
qed

lemma trading_inv_init: "trading_inv trading_init"
  by (simp add: trading_inv_def trading_init_def ids_ok_def notes_for_def fired_def)

lemma create_alert_props:
  assumes inv: "trading_inv s"
  shows "trading_inv (snd (create_alert s sender tk cond th tier now_iso))"
    and "fired (snd (create_alert s sender tk cond th tier now_iso)) ow i = fired s ow i"
proof -
  let ?al = "alerts_of s sender"
  let ?new = "\<lparr>alert_id = int (length ?al) + 1, token = tk, condition = cond, threshold = th,
               created = now_iso, triggered = False, active = True\<rparr>"
  let ?s' = "snd (create_alert s sender tk cond th tier now_iso)"
  have "trading_inv ?s' \<and> fired ?s' ow i = fired s ow i"
  proof (cases "int (length ?al) \<ge> (if tier = ''premium'' then premium_alerts else free_alerts)")
    case True
    then have "?s' = s" by (simp add: create_alert_def get_alerts_def Let_def)
    with inv show ?thesis by simp
  next
    case False
    then have a: "alerts_of ?s' = (alerts_of s)(sender := ?al @ [?new])"
      and ow: "alert_owners ?s' = (if sender \<notin> set (alert_owners s) then alert_owners s @ [sender]
                                   else alert_owners s)"
      and out: "outbox ?s' = outbox s"
      by (simp_all add: create_alert_def get_alerts_def save_alerts_def register_alert_owner_def
          Let_def)
    have f: "fired ?s' ow' i' = fired s ow' i'" for ow' i'
    proof (cases "ow' = sender")
      case False
      with a show ?thesis by (simp add: fired_def)
    next
      case True
      show ?thesis
      proof (cases "0 < i' \<and> i' \<le> int (length ?al)")
        case True
        then have "nat (i' - 1) < length ?al" by auto
        with True \<open>ow' = sender\<close> a show ?thesis by (auto simp: fired_def nth_append)
      next
        case False
        with \<open>ow' = sender\<close> a show ?thesis by (auto simp: fired_def nth_append)
      qed
    qed
    have "trading_inv ?s'"
      unfolding trading_inv_def
    proof (intro conjI allI impI)
      show "distinct (alert_owners ?s')" using inv ow by (simp add: trading_inv_def)
    next
      fix ow' assume ne: "alerts_of ?s' ow' \<noteq> []"
      show "ow' \<in> set (alert_owners ?s')"
      proof (cases "ow' = sender")
        case True
        with ow show ?thesis by simp
      next
        case False
        with ne a have "alerts_of s ow' \<noteq> []" by simp
        with inv ow show ?thesis by (simp add: trading_inv_def)
      qed
    next
      fix ow'
      from inv have "ids_ok ?al" by (simp add: trading_inv_def)
      then have "ids_ok (?al @ [?new])" by (simp add: ids_ok_def)
      with inv a show "ids_ok (alerts_of ?s' ow')"
        by (cases "ow' = sender") (simp_all add: trading_inv_def)
    next
      fix ow' i'
      from inv show "notes_for ow' i' (outbox ?s') = (if fired ?s' ow' i' then 1 else 0)"
        unfolding out f by (simp add: trading_inv_def)
    qed
    with f show ?thesis by simp
  qed
  then show "trading_inv ?s'" and "fired ?s' ow i = fired s ow i" by simp_all
qed

lemma deactivate_first_props:
  "deactivate_first i al = Some al' \<Longrightarrow>
     length al' = length al \<and> map alert_id al' = map alert_id al
     \<and> map triggered al' = map triggered al"
proof (induction al arbitrary: al')
  case Nil
  then show ?case by simp
next
  case (Cons a al)
  show ?case
  proof (cases "alert_id a = i \<and> active a")
    case True
    with Cons.prems show ?thesis by auto
  next
    case False
    with Cons.prems obtain r where r: "deactivate_first i al = Some r" "al' = a # r" by auto
    from Cons.IH [OF r(1)] r(2) show ?thesis by simp
  qed
qed

lemma remove_alert_props:
  assumes inv: "trading_inv s"
  shows "trading_inv (snd (remove_alert s sender i))"
    and "fired (snd (remove_alert s sender i)) ow i' = fired s ow i'"
proof -
  let ?s' = "snd (remove_alert s sender i)"
  have "trading_inv ?s' \<and> (\<forall>ow i'. fired ?s' ow i' = fired s ow i')"
  proof (cases "deactivate_first i (alerts_of s sender)")
    case None
    then have "?s' = s" by (simp add: remove_alert_def get_alerts_def)
    with inv show ?thesis by simp
  next
    case (Some al')
    then have a: "alerts_of ?s' = (alerts_of s)(sender := al')"
      and ow: "alert_owners ?s' = alert_owners s" and out: "outbox ?s' = outbox s"
      by (simp_all add: remove_alert_def get_alerts_def save_alerts_def)
    from deactivate_first_props [OF Some]
    have p: "length al' = length (alerts_of s sender)"
      "map alert_id al' = map alert_id (alerts_of s sender)"
      "map triggered al' = map triggered (alerts_of s sender)"
      by simp_all
    have tr: "triggered (al' ! j) = triggered (alerts_of s sender ! j)"
      if "j < length (alerts_of s sender)" for j
    proof -
      from that p(1) have "triggered (al' ! j) = map triggered al' ! j" by simp
      also have "\<dots> = map triggered (alerts_of s sender) ! j" by (simp only: p(3))
      also have "\<dots> = triggered (alerts_of s sender ! j)" using that by simp
      finally show ?thesis .
    qed
    have f: "fired ?s' ow' k = fired s ow' k" for ow' k
    proof (cases "ow' = sender")
      case False
      with a show ?thesis by (simp add: fired_def)
    next
      case True
      show ?thesis
      proof (cases "0 < k \<and> k \<le> int (length (alerts_of s sender))")
        case in_range: True
        then have "nat (k - 1) < length (alerts_of s sender)" by auto
        from tr [OF this] in_range True a p(1) show ?thesis by (simp add: fired_def)
      next
        case False
        with True a p(1) show ?thesis by (auto simp: fired_def)
      qed
    qed
    have "trading_inv ?s'"
      unfolding trading_inv_def
    proof (intro conjI allI impI)
      show "distinct (alert_owners ?s')" using inv ow by (simp add: trading_inv_def)
    next
      fix ow' assume "alerts_of ?s' ow' \<noteq> []"
      with a p(1) have "alerts_of s ow' \<noteq> []" by (cases "ow' = sender") auto
      with inv ow show "ow' \<in> set (alert_owners ?s')" by (simp add: trading_inv_def)
    next
      fix ow'
      from inv have "ids_ok (alerts_of s sender)" by (simp add: trading_inv_def)
      with p have "ids_ok al'" by (simp add: ids_ok_def)
      with inv a show "ids_ok (alerts_of ?s' ow')"
        by (cases "ow' = sender") (simp_all add: trading_inv_def)
    next
      fix ow' k
      from inv show "notes_for ow' k (outbox ?s') = (if fired ?s' ow' k then 1 else 0)"
        unfolding out f by (simp add: trading_inv_def)
    qed
    with f show ?thesis by simp
  qed
  then show "trading_inv ?s'" and "fired ?s' ow i' = fired s ow i'" by simp_all
qed

lemma apply_tevent_props:
  assumes "trading_inv s"
  shows "trading_inv (apply_tevent s e)" and "fired s ow i \<Longrightarrow> fired (apply_tevent s e) ow i"
proof -
  show "trading_inv (apply_tevent s e)"
    using assms by (cases e) (simp_all add: check_alerts_char(1) create_alert_props(1) remove_alert_props(1))
  show "fired s ow i \<Longrightarrow> fired (apply_tevent s e) ow i"
    using assms by (cases e) (simp_all add: fired_sweep create_alert_props(2) remove_alert_props(2))
qed

lemma run_trading_props:
  "trading_inv s \<Longrightarrow> trading_inv (run_trading s evs)
     \<and> (fired s ow i \<longrightarrow> fired (run_trading s evs) ow i)"
  unfolding run_trading_def
proof (induction evs arbitrary: s)
  case Nil
  then show ?case by simp
next
  case (Cons e evs)
  from apply_tevent_props [OF Cons.prems]
  have "trading_inv (apply_tevent s e)" "fired s ow i \<Longrightarrow> fired (apply_tevent s e) ow i"
    by blast+
  with Cons.IH [of "apply_tevent s e"] show ?case by auto
qed

lemma condition_met_iff:
  "condition_met a p = ((condition a = ''above'' \<and> threshold a \<le> p)
                        \<or> (condition a = ''below'' \<and> p \<le> threshold a))"
  by (simp add: condition_met_def)

text \<open>
  C6. Take any alert stored after any trace of sweeps and alert commands (position \<open>j\<close>
  in the list of its owner). A sweep in which it fires (it is active and not triggered,
  and the feed price is at or above its \<open>above\<close> threshold or at or below its \<open>below\<close>
  threshold) sends exactly one notification for it (none had been sent before) and sets
  its \<open>triggered\<close> flag; after any further sweeps and commands the flag is still set and
  the number of notifications for it is still one. A sweep in which it does not fire
  (because it is inactive or already triggered, or there is no price, or the condition
  is not met) leaves it as it is and sends nothing for it.
\<close>

theorem alert_fires_once:
  "j < length (alerts_of (run_trading trading_init evs) ow) \<longrightarrow>
     (let s = run_trading trading_init evs; a = alerts_of s ow ! j;
          s1 = check_alerts fd s; s2 = run_trading s1 evs2
      in (fires fd ow a \<longrightarrow>
            notes_for ow (alert_id a) (outbox s) = 0
            \<and> notes_for ow (alert_id a) (outbox s1) = 1
            \<and> alerts_of s1 ow ! j = a\<lparr>triggered := True\<rparr>
            \<and> j < length (alerts_of s2 ow) \<and> triggered (alerts_of s2 ow ! j)
            \<and> alert_id (alerts_of s2 ow ! j) = alert_id a
            \<and> notes_for ow (alert_id a) (outbox s2) = 1)
       \<and> (\<not> fires fd ow a \<longrightarrow>
            alerts_of s1 ow ! j = a
            \<and> notes_for ow (alert_id a) (outbox s1) = notes_for ow (alert_id a) (outbox s))
       \<and> (fires fd ow a
            = (active a \<and> \<not> triggered a
               \<and> (\<exists>p. fd ow a = Some p
                     \<and> ((condition a = ''above'' \<and> threshold a \<le> p)
                         \<or> (condition a = ''below'' \<and> p \<le> threshold a))))))"
proof
  assume j: "j < length (alerts_of (run_trading trading_init evs) ow)"
  define s where "s = run_trading trading_init evs"
  define a where "a = alerts_of s ow ! j"
  define s1 where "s1 = check_alerts fd s"
  define s2 where "s2 = run_trading s1 evs2"
  from j have j: "j < length (alerts_of s ow)" by (simp add: s_def)
  have inv: "trading_inv s"
    unfolding s_def using run_trading_props [OF trading_inv_init] by blast
  have inv1: "trading_inv s1" unfolding s1_def using inv by (rule check_alerts_char(1))
  have inv2: "trading_inv s2" unfolding s2_def using run_trading_props [OF inv1] by blast
  have n: "notes_for ow k (outbox st) = (if fired st ow k then 1 else 0)"
    if "trading_inv st" for st k
    using that by (simp add: trading_inv_def)
  from inv have "ids_ok (alerts_of s ow)" by (simp add: trading_inv_def)
  then have id: "alert_id a = int j + 1" unfolding a_def using j by (rule ids_okD)
  have fs: "fired s ow (int j + 1) = triggered a"
    using j by (simp add: fired_def a_def)
  have f1: "fired s1 ow (int j + 1) = (triggered a \<or> fires fd ow a)"
    unfolding s1_def fired_sweep [OF inv] using fs j by (simp add: a_def)
  have nth1: "alerts_of s1 ow ! j = (if fires fd ow a then a\<lparr>triggered := True\<rparr> else a)"
    unfolding s1_def a_def using check_alerts_char(4) [OF inv j] by simp
  have A: "notes_for ow (alert_id a) (outbox s) = 0
      \<and> notes_for ow (alert_id a) (outbox s1) = 1
      \<and> alerts_of s1 ow ! j = a\<lparr>triggered := True\<rparr>
      \<and> j < length (alerts_of s2 ow) \<and> triggered (alerts_of s2 ow ! j)
      \<and> alert_id (alerts_of s2 ow ! j) = alert_id a
      \<and> notes_for ow (alert_id a) (outbox s2) = 1" if f: "fires fd ow a"
  proof -
    from f have nt: "\<not> triggered a" by (simp add: fires_def)
    from f f1 have fd1: "fired s1 ow (int j + 1)" by simp
    then have fd2: "fired s2 ow (int j + 1)"
      unfolding s2_def using run_trading_props [OF inv1] by blast
    then have j2: "j < length (alerts_of s2 ow)" and t2: "triggered (alerts_of s2 ow ! j)"
      by (simp_all add: fired_def)
    from inv2 have "ids_ok (alerts_of s2 ow)" by (simp add: trading_inv_def)
    then have id2: "alert_id (alerts_of s2 ow ! j) = int j + 1" using j2 by (rule ids_okD)
    from n [OF inv] n [OF inv1] n [OF inv2] fs nt fd1 fd2 nth1 f j2 t2 id id2
    show ?thesis by simp
  qed
  have B: "alerts_of s1 ow ! j = a
      \<and> notes_for ow (alert_id a) (outbox s1) = notes_for ow (alert_id a) (outbox s)"
    if f: "\<not> fires fd ow a"
    using n [OF inv] n [OF inv1] fs f1 f nth1 id by simp
  have C: "fires fd ow a
        = (active a \<and> \<not> triggered a
           \<and> (\<exists>p. fd ow a = Some p
                 \<and> ((condition a = ''above'' \<and> threshold a \<le> p)
                     \<or> (condition a = ''below'' \<and> p \<le> threshold a))))"
    by (cases "fd ow a") (simp_all add: fires_def condition_met_iff)
  from A B C
  show "let s = run_trading trading_init evs; a = alerts_of s ow ! j;
          s1 = check_alerts fd s; s2 = run_trading s1 evs2
      in (fires fd ow a \<longrightarrow>
            notes_for ow (alert_id a) (outbox s) = 0
            \<and> notes_for ow (alert_id a) (outbox s1) = 1
            \<and> alerts_of s1 ow ! j = a\<lparr>triggered := True\<rparr>
            \<and> j < length (alerts_of s2 ow) \<and> triggered (alerts_of s2 ow ! j)
            \<and> alert_id (alerts_of s2 ow ! j) = alert_id a
            \<and> notes_for ow (alert_id a) (outbox s2) = 1)
       \<and> (\<not> fires fd ow a \<longrightarrow>
            alerts_of s1 ow ! j = a
            \<and> notes_for ow (alert_id a) (outbox s1) = notes_for ow (alert_id a) (outbox s))
       \<and> (fires fd ow a
            = (active a \<and> \<not> triggered a
               \<and> (\<exists>p. fd ow a = Some p
                     \<and> ((condition a = ''above'' \<and> threshold a \<le> p)
                         \<or> (condition a = ''below'' \<and> p \<le> threshold a)))))"
    unfolding Let_def s_def [symmetric] a_def [symmetric] s1_def [symmetric] s2_def [symmetric]
    by blast
qed

theorem alert_fires_once_witness:
  "0 < length (alerts_of (run_trading trading_init
        [Create ''alice'' ''FET'' ''above'' 10 ''free'' ''2026-01-01T00:00:00'']) ''alice'')
   \<and> fires (const_feed 11) ''alice'' (alerts_of (run_trading trading_init
        [Create ''alice'' ''FET'' ''above'' 10 ''free'' ''2026-01-01T00:00:00'']) ''alice'' ! 0)
   \<and> notes_for ''alice'' 1 (outbox (check_alerts (const_feed 11) (run_trading trading_init
        [Create ''alice'' ''FET'' ''above'' 10 ''free'' ''2026-01-01T00:00:00'']))) = 1
   \<and> notes_for ''alice'' 1 (outbox (run_trading (check_alerts (const_feed 11)
        (run_trading trading_init
          [Create ''alice'' ''FET'' ''above'' 10 ''free'' ''2026-01-01T00:00:00'']))
        [Sweep (const_feed 12), Sweep (const_feed 13)])) = 1
   \<and> \<not> fires (const_feed 8) ''alice'' (alerts_of (run_trading trading_init
        [Create ''alice'' ''FET'' ''above'' 10 ''free'' ''2026-01-01T00:00:00'']) ''alice'' ! 0)
   \<and> notes_for ''alice'' 1 (outbox (check_alerts (const_feed 8) (run_trading trading_init
        [Create ''alice'' ''FET'' ''above'' 10 ''free'' ''2026-01-01T00:00:00'']))) = 0"
proof -
  let ?evs = "[Create ''alice'' ''FET'' ''above'' 10 ''free'' ''2026-01-01T00:00:00'']"
  let ?s = "run_trading trading_init ?evs"
  let ?a = "\<lparr>alert_id = 1, token = ''FET'', condition = ''above'', threshold = 10,
              created = ''2026-01-01T00:00:00'', triggered = False, active = True\<rparr>"
  have al: "alerts_of ?s ''alice'' = [?a]"
    by (simp add: run_trading_def create_alert_def get_alerts_def save_alerts_def
        register_alert_owner_def trading_init_def free_alerts_def Let_def)
  have out: "outbox ?s = []"
    by (simp add: run_trading_def create_alert_def get_alerts_def save_alerts_def
        register_alert_owner_def trading_init_def free_alerts_def Let_def)
  have j: "0 < length (alerts_of ?s ''alice'')" by (simp add: al)
  have a: "alerts_of ?s ''alice'' ! 0 = ?a" by (simp add: al)
  have f11: "fires (const_feed 11) ''alice'' (alerts_of ?s ''alice'' ! 0)"
    unfolding a by (simp add: fires_def const_feed_def condition_met_def)
  have f8: "\<not> fires (const_feed 8) ''alice'' (alerts_of ?s ''alice'' ! 0)"
    unfolding a by (simp add: fires_def const_feed_def condition_met_def)
  have id: "alert_id (alerts_of ?s ''alice'' ! 0) = 1" by (simp add: a)
  have n0: "notes_for ''alice'' 1 (outbox ?s) = 0" by (simp add: out notes_for_def)
  from alert_fires_once [of 0 ?evs "''alice''" "const_feed 11" "[Sweep (const_feed 12), Sweep (const_feed 13)]"]
    j f11
  have 1: "notes_for ''alice'' 1 (outbox (check_alerts (const_feed 11) ?s)) = 1
      \<and> notes_for ''alice'' 1 (outbox (run_trading (check_alerts (const_feed 11) ?s)
            [Sweep (const_feed 12), Sweep (const_feed 13)])) = 1"
    unfolding Let_def id by blast
  from alert_fires_once [of 0 ?evs "''alice''" "const_feed 8" "[]"] j f8
  have 2: "notes_for ''alice'' 1 (outbox (check_alerts (const_feed 8) ?s)) = 0"
    unfolding Let_def id n0 by blast
  from j f11 f8 1 2 show ?thesis by blast
qed

section \<open>Properties of the token scoring\<close>

lemma demo_age_0: "age_days demo_conv 1767225600000000 demo_token = 0"
  by (simp add: age_days_def demo_conv_def demo_token_def dict_get_def replace_Z_def)

lemma demo_age_30: "age_days demo_conv 1769817600000000 demo_token = 30"
  by (simp add: age_days_def demo_conv_def demo_token_def dict_get_def replace_Z_def)

lemma round1_0: "round1 0 = 0" by (simp add: round1_def round_half_even_def)
lemma round1_100: "round1 100 = 100" by (simp add: round1_def round_half_even_def)
lemma round1_75: "round1 75 = 75" by (simp add: round1_def round_half_even_def)
lemma round1_85: "round1 85 = 85" by (simp add: round1_def round_half_even_def)

text \<open>
  The same token dictionary scored at two clock readings thirty days apart: the age
  score goes from 0 to 100, the total from 75 to 85 and the grade from B to A.
\<close>

theorem score_token_counterexample:
  "grade_total (score_token demo_conv 1767225600000000 demo_token) = Some (''B'', 75)
   \<and> grade_total (score_token demo_conv 1769817600000000 demo_token) = Some (''A'', 85)
   \<and> grade_total (score_token demo_conv 1767225600000000 demo_token)
       \<noteq> grade_total (score_token demo_conv 1769817600000000 demo_token)"
proof -
  have 1: "grade_total (score_token demo_conv 1767225600000000 demo_token) = Some (''B'', 75)"
    unfolding score_token_def demo_age_0
    by (simp add: demo_token_def dict_get_def normalize_val_def grade_total_def letter_grade_def
        round1_0 round1_100 round1_75 Let_def)
  have 2: "grade_total (score_token demo_conv 1769817600000000 demo_token) = Some (''A'', 85)"
    unfolding score_token_def demo_age_30
    by (simp add: demo_token_def dict_get_def normalize_val_def grade_total_def letter_grade_def
        round1_0 round1_100 round1_85 Let_def)
  from 1 2 show ?thesis by simp
qed

lemma score_token_age:
  "score_token cv now1 tk = score_token cv now2 tk"
  if "normalize_val (real_of_int (age_days cv now1 tk)) 0 30 = normalize_val (real_of_int (age_days cv now2 tk)) 0 30"
  unfolding score_token_def that by (rule refl)

lemma normalize_old: "30 \<le> d \<Longrightarrow> normalize_val (real_of_int d) 0 30 = 100"
  by (simp add: normalize_val_def)

lemma age_days_no_created:
  "\<not> truthy (dict_get tk ''createdAt'' (dict_get tk ''created_at'' (JStr ''''))) \<Longrightarrow>
     age_days cv now tk = 0"
  by (simp add: age_days_def)

text \<open>
  C7 (as amended). Two calls of \<open>score_token\<close> on the same token dictionary return the
  same result, so the same grade and total, whenever the two clock readings give the
  same age in whole days; in particular when the token has no creation date, and also
  when it is at least 30 days old at both readings (the age score is capped there).
\<close>

theorem score_token_deterministic:
  "(age_days cv now1 tk = age_days cv now2 tk \<longrightarrow>
      score_token cv now1 tk = score_token cv now2 tk
      \<and> grade_total (score_token cv now1 tk) = grade_total (score_token cv now2 tk))
   \<and> (\<not> truthy (dict_get tk ''createdAt'' (dict_get tk ''created_at'' (JStr ''''))) \<longrightarrow>
      score_token cv now1 tk = score_token cv now2 tk)
   \<and> (30 \<le> age_days cv now1 tk \<and> 30 \<le> age_days cv now2 tk \<longrightarrow>
      score_token cv now1 tk = score_token cv now2 tk)"
proof (intro conjI impI)
  assume "age_days cv now1 tk = age_days cv now2 tk"
  then show e: "score_token cv now1 tk = score_token cv now2 tk"
    by (intro score_token_age) simp
  then show "grade_total (score_token cv now1 tk) = grade_total (score_token cv now2 tk)"
    by simp
next
  assume "\<not> truthy (dict_get tk ''createdAt'' (dict_get tk ''created_at'' (JStr '''')))"
  then have "age_days cv now1 tk = 0" "age_days cv now2 tk = 0"
    by (simp_all add: age_days_no_created)
  then show "score_token cv now1 tk = score_token cv now2 tk"
    by (intro score_token_age) simp
next
  assume "30 \<le> age_days cv now1 tk \<and> 30 \<le> age_days cv now2 tk"
  then show "score_token cv now1 tk = score_token cv now2 tk"
    by (intro score_token_age) (simp add: normalize_old)
qed

theorem score_token_deterministic_witness:
  "age_days demo_conv 1767225600000000 demo_token = age_days demo_conv 1767229200000000 demo_token
   \<and> score_token demo_conv 1767225600000000 demo_token
       = score_token demo_conv 1767229200000000 demo_token
   \<and> \<not> truthy (dict_get [''holders'' \<mapsto> JInt 10] ''createdAt''
                  (dict_get [''holders'' \<mapsto> JInt 10] ''created_at'' (JStr '''')))
   \<and> score_token demo_conv 0 [''holders'' \<mapsto> JInt 10]
       = score_token demo_conv 1767225600000000 [''holders'' \<mapsto> JInt 10]
   \<and> 30 \<le> age_days demo_conv 1769817600000000 demo_token
   \<and> 30 \<le> age_days demo_conv 1770000000000000 demo_token
   \<and> score_token demo_conv 1769817600000000 demo_token
       = score_token demo_conv 1770000000000000 demo_token"
proof -
  have a1: "age_days demo_conv 1767229200000000 demo_token = 0"
    by (simp add: age_days_def demo_conv_def demo_token_def dict_get_def replace_Z_def)
  have a2: "age_days demo_conv 1770000000000000 demo_token = 32"
    by (simp add: age_days_def demo_conv_def demo_token_def dict_get_def replace_Z_def)
  have h1: "age_days demo_conv 1767225600000000 demo_token
      = age_days demo_conv 1767229200000000 demo_token"
    by (simp add: a1 demo_age_0)
  have h2: "\<not> truthy (dict_get [''holders'' \<mapsto> JInt 10] ''createdAt''
                  (dict_get [''holders'' \<mapsto> JInt 10] ''created_at'' (JStr '''')))"
    by (simp add: dict_get_def)
  have h3: "30 \<le> age_days demo_conv 1769817600000000 demo_token
      \<and> 30 \<le> age_days demo_conv 1770000000000000 demo_token"
    by (simp add: a2 demo_age_30)
  from score_token_deterministic [of demo_conv 1767225600000000 demo_token 1767229200000000] h1
  have 1: "score_token demo_conv 1767225600000000 demo_token
       = score_token demo_conv 1767229200000000 demo_token" by blast
  from score_token_deterministic [of demo_conv 0 "[''holders'' \<mapsto> JInt 10]" 1767225600000000] h2
  have 2: "score_token demo_conv 0 [''holders'' \<mapsto> JInt 10]
       = score_token demo_conv 1767225600000000 [''holders'' \<mapsto> JInt 10]" by blast
  from score_token_deterministic [of demo_conv 1769817600000000 demo_token 1770000000000000] h3
  have 3: "score_token demo_conv 1769817600000000 demo_token
       = score_token demo_conv 1770000000000000 demo_token" by blast
  from h1 h2 h3 1 2 3 show ?thesis by blast
qed

section \<open>Properties of the upstream calls\<close>

lemma check_token_holdings_returns: "\<exists>res. check_token_holdings ta c u now http n1 n2 = Inr res"
  by (simp add: check_token_holdings_def Let_def split: sum.splits option.splits)

lemma get_all_tokens_returns: "\<exists>res. get_all_tokens c now http n1 n2 = Inr res"
  by (simp add: get_all_tokens_def Let_def split: sum.splits option.splits)

lemma holdings_request_failed:
  "\<not> premium_balance http \<Longrightarrow>
     (case holdings_request c u http n1 n2 of
        Inr (Some res) \<Rightarrow> fst res = JStr ''free'' | Inr None \<Rightarrow> True | Inl e \<Rightarrow> True)"
  by (cases http rule: premium_balance.cases)
     (auto simp: holdings_request_def Let_def split: sum.splits option.splits)

lemma upstream_failed_no_premium: "upstream_failed http \<Longrightarrow> \<not> premium_balance http"
  by (cases http rule: upstream_failed.cases) simp_all

lemma check_token_holdings_free:
  assumes "\<not> not_None (fst (cache_get c (''tier:'' @ u) now))" "\<not> premium_balance http"
  shows "returned (check_token_holdings ta c u now http n1 n2) = Some (JStr ''free'')"
  using assms(1) holdings_request_failed [OF assms(2), of "snd (cache_get c (''tier:'' @ u) now)" u n1 n2]
  by (auto simp: check_token_holdings_def returned_def Let_def split: sum.splits option.splits)

lemma tokens_request_failed:
  "upstream_failed http \<or> unsuccessful_body http \<Longrightarrow>
     (case tokens_request c http n1 n2 of
        Inr (Some res) \<Rightarrow> fst res = JArr [] | Inr None \<Rightarrow> True | Inl e \<Rightarrow> True)"
  by (cases http rule: upstream_failed.cases)
     (auto simp: tokens_request_def Let_def split: sum.splits option.splits)

lemma get_all_tokens_empty:
  assumes "\<not> not_None (fst (cache_get c ''all_tokens'' now))"
    "upstream_failed http \<or> unsuccessful_body http"
  shows "returned (get_all_tokens c now http n1 n2) = Some (JArr [])"
  using assms(1) tokens_request_failed [OF assms(2), of "snd (cache_get c ''all_tokens'' now)" n1 n2]
  by (auto simp: get_all_tokens_def returned_def Let_def split: sum.splits option.splits)

text \<open>
  A response with status 200 whose body says \<open>success: false\<close> and carries a balance of
  2000: \<open>check_token_holdings\<close> does not read \<open>success\<close> and returns the premium tier.
\<close>

theorem upstream_failure_counterexample:
  "unsuccessful_body (Response 200 (Some (JObj [(''success'', JBool False), (''balance'', JInt 2000)])))
   \<and> returned (check_token_holdings ''0xT'' (Cache 1000) ''agent1q'' 0
        (Response 200 (Some (JObj [(''success'', JBool False), (''balance'', JInt 2000)]))) 0 0)
      = Some (JStr ''premium'')
   \<and> returned (check_token_holdings ''0xT'' (Cache 1000) ''agent1q'' 0
        (Response 200 (Some (JObj [(''success'', JBool False), (''balance'', JInt 2000)]))) 0 0)
      \<noteq> Some (JStr ''free'')"
  by (simp add: check_token_holdings_def holdings_request_def returned_def cache_get_def Cache_def
      not_None_def premium_token_threshold_def Let_def)

text \<open>
  C9 (as amended). Neither \<open>check_token_holdings\<close> nor \<open>get_all_tokens\<close> raises, whatever
  the outcome of the HTTP call. When the cache has no value for the key, so that the
  call is made: if the call raises, or the status is not 200, or the body is not JSON,
  the tier is \<open>free\<close> and the token list is empty; the token list is empty also for an
  unsuccessful body (not an object, or \<open>success\<close> missing or false); and the tier is
  \<open>free\<close> for every outcome that does not carry a balance at or above the premium
  threshold, and when no token address is configured.
\<close>

theorem upstream_failure_defaults:
  "(\<exists>res. check_token_holdings ta c u now http n1 n2 = Inr res)
   \<and> (\<exists>res. get_all_tokens c now http n1 n2 = Inr res)
   \<and> (\<not> not_None (fst (cache_get c (''tier:'' @ u) now)) \<and> upstream_failed http \<longrightarrow>
        returned (check_token_holdings ta c u now http n1 n2) = Some (JStr ''free''))
   \<and> (\<not> not_None (fst (cache_get c (''tier:'' @ u) now)) \<and> \<not> premium_balance http \<longrightarrow>
        returned (check_token_holdings ta c u now http n1 n2) = Some (JStr ''free''))
   \<and> (ta = [] \<longrightarrow> returned (check_token_holdings ta c u now http n1 n2) = Some (JStr ''free''))
   \<and> (\<not> not_None (fst (cache_get c ''all_tokens'' now))
        \<and> (upstream_failed http \<or> unsuccessful_body http) \<longrightarrow>
        returned (get_all_tokens c now http n1 n2) = Some (JArr []))"
proof (intro conjI impI)
  show "\<exists>res. check_token_holdings ta c u now http n1 n2 = Inr res"
    by (rule check_token_holdings_returns)
  show "\<exists>res. get_all_tokens c now http n1 n2 = Inr res"
    by (rule get_all_tokens_returns)
next
  assume "\<not> not_None (fst (cache_get c (''tier:'' @ u) now)) \<and> upstream_failed http"
  then show "returned (check_token_holdings ta c u now http n1 n2) = Some (JStr ''free'')"
    by (intro check_token_holdings_free upstream_failed_no_premium) simp_all
next
  assume "\<not> not_None (fst (cache_get c (''tier:'' @ u) now)) \<and> \<not> premium_balance http"
  then show "returned (check_token_holdings ta c u now http n1 n2) = Some (JStr ''free'')"
    by (intro check_token_holdings_free) simp_all
next
  assume "ta = []"
  then show "returned (check_token_holdings ta c u now http n1 n2) = Some (JStr ''free'')"
    by (simp add: check_token_holdings_def returned_def)
next
  assume "\<not> not_None (fst (cache_get c ''all_tokens'' now))
      \<and> (upstream_failed http \<or> unsuccessful_body http)"
  then show "returned (get_all_tokens c now http n1 n2) = Some (JArr [])"
    by (intro get_all_tokens_empty) simp_all
qed

theorem upstream_failure_defaults_witness:
  "returned (check_token_holdings ''0xT'' (Cache 1000) ''agent1q'' 0 RequestRaised 0 0)
     = Some (JStr ''free'')
   \<and> returned (get_all_tokens (Cache 1000) 0 RequestRaised 0 0) = Some (JArr [])
   \<and> returned (check_token_holdings ''0xT'' (Cache 1000) ''agent1q'' 0
        (Response 500 (Some (JObj [(''balance'', JInt 2000)]))) 0 0) = Some (JStr ''free'')
   \<and> returned (get_all_tokens (Cache 1000) 0 (Response 200 None) 0 0) = Some (JArr [])
   \<and> returned (check_token_holdings ''0xT'' (Cache 1000) ''agent1q'' 0
        (Response 200 (Some (JObj [(''balance'', JStr ''many'')]))) 0 0) = Some (JStr ''free'')
   \<and> returned (check_token_holdings [] (Cache 1000) ''agent1q'' 0
        (Response 200 (Some (JObj [(''balance'', JInt 2000)]))) 0 0) = Some (JStr ''free'')
   \<and> returned (get_all_tokens (Cache 1000) 0
        (Response 200 (Some (JObj [(''success'', JBool False), (''data'', JArr [JInt 1])]))) 0 0)
      = Some (JArr [])"
proof -
  let ?c = "Cache 1000 :: (string, jv) cache"
  have miss: "\<not> not_None (fst (cache_get ?c k 0))" for k
    by (simp add: cache_get_def Cache_def not_None_def)
  have 1: "returned (check_token_holdings ''0xT'' ?c ''agent1q'' 0 RequestRaised 0 0)
     = Some (JStr ''free'')"
    using upstream_failure_defaults [of "''0xT''" ?c "''agent1q''" 0 RequestRaised 0 0] miss
    by simp
  have 2: "returned (get_all_tokens ?c 0 RequestRaised 0 0) = Some (JArr [])"
    using upstream_failure_defaults [of "''0xT''" ?c "''agent1q''" 0 RequestRaised 0 0] miss
    by simp
  have 3: "returned (check_token_holdings ''0xT'' ?c ''agent1q'' 0
        (Response 500 (Some (JObj [(''balance'', JInt 2000)]))) 0 0) = Some (JStr ''free'')"
    using upstream_failure_defaults [of "''0xT''" ?c "''agent1q''" 0
        "Response 500 (Some (JObj [(''balance'', JInt 2000)]))" 0 0] miss
    by simp
  have 4: "returned (get_all_tokens ?c 0 (Response 200 None) 0 0) = Some (JArr [])"
    using upstream_failure_defaults [of "''0xT''" ?c "''agent1q''" 0 "Response 200 None" 0 0] miss
    by simp
  have 5: "returned (check_token_holdings ''0xT'' ?c ''agent1q'' 0
        (Response 200 (Some (JObj [(''balance'', JStr ''many'')]))) 0 0) = Some (JStr ''free'')"
    using upstream_failure_defaults [of "''0xT''" ?c "''agent1q''" 0
        "Response 200 (Some (JObj [(''balance'', JStr ''many'')]))" 0 0] miss
    by simp
  have 6: "returned (check_token_holdings [] ?c ''agent1q'' 0
        (Response 200 (Some (JObj [(''balance'', JInt 2000)]))) 0 0) = Some (JStr ''free'')"
    using upstream_failure_defaults [of "[]" ?c "''agent1q''" 0
        "Response 200 (Some (JObj [(''balance'', JInt 2000)]))" 0 0]
    by simp
  have 7: "returned (get_all_tokens ?c 0
        (Response 200 (Some (JObj [(''success'', JBool False), (''data'', JArr [JInt 1])]))) 0 0)
      = Some (JArr [])"
    using upstream_failure_defaults [of "''0xT''" ?c "''agent1q''" 0
        "Response 200 (Some (JObj [(''success'', JBool False), (''data'', JArr [JInt 1])]))" 0 0] miss
    by simp
  from 1 2 3 4 5 6 7 show ?thesis by blast
qed

section \<open>Properties of the welcome gift\<close>

lemma find_evm_shape: "find_evm s = Some a \<Longrightarrow> take 2 a = ''0x'' \<and> length a = 42"
proof (induction s)
  case Nil
  then show ?case by simp
next
  case (Cons ch s)
  show ?case
  proof (cases "evm_at (ch # s)")
    case True
    with Cons.prems have a: "a = take 42 (ch # s)" by simp
    from True have "take 2 (ch # s) = ''0x''" "42 \<le> length (ch # s)" by (simp_all add: evm_at_def)
    then show ?thesis unfolding a by (simp add: take_Cons')
  next
    case False
    with Cons show ?thesis by simp
  qed
qed

lemma claims_grow:
  "sender \<in> dom (welcome_claims s) \<Longrightarrow> sender \<in> dom (welcome_claims (snd (claim_welcome s u text env)))"
  by (auto simp: claim_welcome_def has_claimed_welcome_def send_reply_def send_fet_def send_bnb_def
      record_welcome_claim_def increment_daily_claims_def Let_def
      split: option.splits tx_outcome.splits tx_result.splits prod.splits if_splits)

lemma run_claims_grow:
  "sender \<in> dom (welcome_claims s) \<Longrightarrow> sender \<in> dom (welcome_claims (run_claims s evs))"
  by (induction s evs rule: run_claims.induct) (simp_all add: claims_grow)

lemma claim_welcome_again:
  assumes "sender \<in> dom (welcome_claims s)"
  shows "claim_welcome s sender text env = send_reply env s sender AlreadyClaimed True"
  using assms by (simp add: claim_welcome_def has_claimed_welcome_def)

lemma claim_welcome_transfers:
  assumes nc: "\<not> has_claimed_welcome s sender" and a: "find_evm text = Some addr"
    and d: "get_daily_claim_count s (today_check env) < MAX_CLAIMS_PER_DAY"
    and t: "treasury_ok env"
    and f: "fst (send_fet env s addr WELCOME_FET) = TxSuccess fet_hash"
    and b: "fst (send_bnb env (snd (send_fet env s addr WELCOME_FET)) addr WELCOME_BNB) = TxFailure e"
  shows "claim_welcome s sender text env =
     (case send_reply env (s\<lparr>ledger := ledger s @ [FetTransfer addr WELCOME_FET]\<rparr>) sender
             (BnbFailed e (take 16 fet_hash)) True of
        (Raised, s3) \<Rightarrow> (Raised, s3)
      | (Returned, s3) \<Rightarrow>
          (Returned, increment_daily_claims (record_welcome_claim s3 sender (claim_time env))
                       (today_incr env)))"
proof -
  from f have s1: "send_fet env s addr WELCOME_FET
      = (TxSuccess fet_hash, s\<lparr>ledger := ledger s @ [FetTransfer addr WELCOME_FET]\<rparr>)"
    by (auto simp: send_fet_def split: if_splits tx_outcome.splits)
  let ?s1 = "s\<lparr>ledger := ledger s @ [FetTransfer addr WELCOME_FET]\<rparr>"
  from b have s2: "send_bnb env ?s1 addr WELCOME_BNB = (TxFailure e, ?s1)"
    unfolding s1 by (auto simp: send_bnb_def split: if_splits tx_outcome.splits)
  from d have d': "\<not> MAX_CLAIMS_PER_DAY \<le> get_daily_claim_count s (today_check env)" by simp
  show ?thesis
    using nc a d' t
    by (simp add: claim_welcome_def s1 s2 Let_def split: prod.splits handler_end.splits)
qed

text \<open>
  When the reply that reports the BNB failure is delivered, the two writes follow it:
  the sender is recorded, the counter of the day is one higher, and every later claim
  attempt of the sender is answered from the record, without a transfer.
\<close>

lemma claim_welcome_bnb_failed:
  assumes nc: "\<not> has_claimed_welcome s sender" and a: "find_evm text = Some addr"
    and d: "get_daily_claim_count s (today_check env) < MAX_CLAIMS_PER_DAY"
    and t: "treasury_ok env"
    and f: "fst (send_fet env s addr WELCOME_FET) = TxSuccess fet_hash"
    and b: "fst (send_bnb env (snd (send_fet env s addr WELCOME_FET)) addr WELCOME_BNB) = TxFailure e"
    and r: "reply_sent env"
  shows "claim_welcome s sender text env =
     (Returned,
      s\<lparr>welcome_claims := (welcome_claims s)(sender \<mapsto> claim_time env),
        daily_claims := (daily_claims s)(today_incr env \<mapsto> get_daily_claim_count s (today_incr env) + 1),
        ledger := ledger s @ [FetTransfer addr WELCOME_FET],
        sent := sent s @ [(sender, BnbFailed e (take 16 fet_hash), True)]\<rparr>)"
  unfolding claim_welcome_transfers [OF nc a d t f b] using r
  by (simp add: send_reply_def record_welcome_claim_def increment_daily_claims_def
      get_daily_claim_count_def)

lemma recorded_when_reply_returns:
  assumes nc: "\<not> has_claimed_welcome s sender" and a: "find_evm text = Some addr"
    and d: "get_daily_claim_count s (today_check env) < MAX_CLAIMS_PER_DAY"
    and t: "treasury_ok env"
    and f: "fst (send_fet env s addr WELCOME_FET) = TxSuccess fet_hash"
    and b: "fst (send_bnb env (snd (send_fet env s addr WELCOME_FET)) addr WELCOME_BNB) = TxFailure e"
    and r: "reply_sent env"
  shows "has_claimed_welcome (snd (claim_welcome s sender text env)) sender"
    and "ledger (snd (claim_welcome s sender text env)) = ledger s @ [FetTransfer addr WELCOME_FET]"
    and "claim_welcome (run_claims (snd (claim_welcome s sender text env)) evs) sender text' env'
         = send_reply env' (run_claims (snd (claim_welcome s sender text env)) evs) sender
             AlreadyClaimed True"
proof -
  note eq = claim_welcome_bnb_failed [OF nc a d t f b r]
  show 1: "has_claimed_welcome (snd (claim_welcome s sender text env)) sender"
    unfolding eq has_claimed_welcome_def by simp
  show "ledger (snd (claim_welcome s sender text env)) = ledger s @ [FetTransfer addr WELCOME_FET]"
    unfolding eq by simp
  from 1 have "sender \<in> dom (welcome_claims (run_claims (snd (claim_welcome s sender text env)) evs))"
    unfolding has_claimed_welcome_def by (rule run_claims_grow)
  then show "claim_welcome (run_claims (snd (claim_welcome s sender text env)) evs) sender text' env'
         = send_reply env' (run_claims (snd (claim_welcome s sender text env)) evs) sender
             AlreadyClaimed True"
    by (rule claim_welcome_again)
qed

text \<open>
  When \<open>ctx.send\<close> raises on that reply, the handler ends with the FET transfer on the
  chain and nothing else changed: no record, no count, no reply.
\<close>

lemma claim_welcome_reply_raised:
  assumes nc: "\<not> has_claimed_welcome s sender" and a: "find_evm text = Some addr"
    and d: "get_daily_claim_count s (today_check env) < MAX_CLAIMS_PER_DAY"
    and t: "treasury_ok env"
    and f: "fst (send_fet env s addr WELCOME_FET) = TxSuccess fet_hash"
    and b: "fst (send_bnb env (snd (send_fet env s addr WELCOME_FET)) addr WELCOME_BNB) = TxFailure e"
    and r: "\<not> reply_sent env"
  shows "claim_welcome s sender text env
     = (Raised, s\<lparr>ledger := ledger s @ [FetTransfer addr WELCOME_FET]\<rparr>)"
  unfolding claim_welcome_transfers [OF nc a d t f b] using r by (simp add: send_reply_def)

lemma demo_find_evm: "find_evm (''claim '' @ demo_wallet) = Some demo_wallet"
  by (simp add: demo_wallet_def evm_at_def is_hex_def list_all_iff)

lemma demo_wallet_shape: "take 2 demo_wallet = ''0x''" "length demo_wallet = 42"
  by (simp_all add: demo_wallet_def)

lemma demo_first_claim:
  "claim_welcome gifter_init demo_sender (''claim '' @ demo_wallet) demo_env_raise
     = (Raised, gifter_init\<lparr>ledger := [FetTransfer demo_wallet 150]\<rparr>)"
proof -
  have "claim_welcome gifter_init demo_sender (''claim '' @ demo_wallet) demo_env_raise
     = (Raised, gifter_init\<lparr>ledger := ledger gifter_init @ [FetTransfer demo_wallet WELCOME_FET]\<rparr>)"
  proof (rule claim_welcome_reply_raised)
    show "\<not> has_claimed_welcome gifter_init demo_sender"
      by (simp add: has_claimed_welcome_def gifter_init_def)
    show "find_evm (''claim '' @ demo_wallet) = Some demo_wallet" by (rule demo_find_evm)
    show "get_daily_claim_count gifter_init (today_check demo_env_raise) < MAX_CLAIMS_PER_DAY"
      by (simp add: get_daily_claim_count_def gifter_init_def MAX_CLAIMS_PER_DAY_def)
    show "treasury_ok demo_env_raise" by (simp add: demo_env_raise_def demo_env_def)
    show "fst (send_fet demo_env_raise gifter_init demo_wallet WELCOME_FET)
        = TxSuccess ''9f3a5c7e1b2d4f60718293a4b5c6d7e8''"
      by (simp add: send_fet_def demo_wallet_shape demo_env_raise_def demo_env_def)
    show "fst (send_bnb demo_env_raise (snd (send_fet demo_env_raise gifter_init demo_wallet WELCOME_FET))
              demo_wallet WELCOME_BNB) = TxFailure ''insufficient funds for gas''"
      by (simp add: send_bnb_def demo_wallet_shape demo_env_raise_def demo_env_def)
    show "\<not> reply_sent demo_env_raise" by (simp add: demo_env_raise_def demo_env_def)
  qed
  then show ?thesis by (simp add: gifter_init_def WELCOME_FET_def)
qed

lemma demo_second_claim:
  "claim_welcome (gifter_init\<lparr>ledger := [FetTransfer demo_wallet 150]\<rparr>) demo_sender
      (''claim '' @ demo_wallet) demo_env_ok
     = (Returned,
        \<lparr>welcome_claims = [demo_sender \<mapsto> ''2026-01-01T10:05:00''],
         daily_claims = [''2026-01-01'' \<mapsto> 1],
         ledger = [FetTransfer demo_wallet 150, FetTransfer demo_wallet 150,
                   BnbTransfer demo_wallet (2 / 10)],
         sent = [(demo_sender,
                  Welcome demo_wallet ''1c2d3e4f5a6b7c8d'' ''77889900aabbccdd'', True)]\<rparr>)"
  unfolding claim_welcome_def demo_find_evm
  by (simp add: has_claimed_welcome_def gifter_init_def
      get_daily_claim_count_def MAX_CLAIMS_PER_DAY_def demo_env_ok_def demo_env_def
      send_fet_def send_bnb_def demo_wallet_shape send_reply_def record_welcome_claim_def
      increment_daily_claims_def WELCOME_FET_def WELCOME_BNB_def Let_def)

text \<open>
  C8. In the welcome-gift claim path, when the FET transfer succeeds and the BNB transfer
  then fails, the FET transfer is not reversed, but the record is written only after the
  reply that reports the failure has been sent. At the claim \<open>claim 0xaa...a\<close> of a
  sender with an Agentverse address, on a fresh agent, with a chain that takes the FET
  and refuses the BNB and a \<open>ctx.send\<close> that raises: the handler ends by the exception,
  the chain has the FET transfer, the sender is not in \<open>welcome_claims\<close> and the counter
  of the day is still 0; the next claim of the same sender is not rejected as already
  claimed: it passes the two transfers again, so the sender has the 150 FET twice. With
  the same chain and a reply that is delivered, the sender is recorded and counted.
\<close>

theorem partial_gift_not_recorded:
  "verify_agentverse_agent demo_sender
   \<and> fst (claim_welcome gifter_init demo_sender (''claim '' @ demo_wallet) demo_env_raise) = Raised
   \<and> ledger (snd (claim_welcome gifter_init demo_sender (''claim '' @ demo_wallet) demo_env_raise))
       = [FetTransfer demo_wallet 150]
   \<and> \<not> has_claimed_welcome
         (snd (claim_welcome gifter_init demo_sender (''claim '' @ demo_wallet) demo_env_raise))
         demo_sender
   \<and> get_daily_claim_count
         (snd (claim_welcome gifter_init demo_sender (''claim '' @ demo_wallet) demo_env_raise))
         ''2026-01-01'' = 0
   \<and> sent (snd (claim_welcome gifter_init demo_sender (''claim '' @ demo_wallet) demo_env_raise)) = []
   \<and> ledger (snd (claim_welcome
         (snd (claim_welcome gifter_init demo_sender (''claim '' @ demo_wallet) demo_env_raise))
         demo_sender (''claim '' @ demo_wallet) demo_env_ok))
       = [FetTransfer demo_wallet 150, FetTransfer demo_wallet 150, BnbTransfer demo_wallet (2 / 10)]
   \<and> sent (snd (claim_welcome
         (snd (claim_welcome gifter_init demo_sender (''claim '' @ demo_wallet) demo_env_raise))
         demo_sender (''claim '' @ demo_wallet) demo_env_ok))
       = [(demo_sender, Welcome demo_wallet ''1c2d3e4f5a6b7c8d'' ''77889900aabbccdd'', True)]
   \<and> has_claimed_welcome
         (snd (claim_welcome gifter_init demo_sender (''claim '' @ demo_wallet) demo_env))
         demo_sender
   \<and> get_daily_claim_count
         (snd (claim_welcome gifter_init demo_sender (''claim '' @ demo_wallet) demo_env))
         ''2026-01-01'' = 1"
proof -
  have v: "verify_agentverse_agent demo_sender"
    by (simp add: verify_agentverse_agent_def demo_sender_def)
  have ok: "claim_welcome gifter_init demo_sender (''claim '' @ demo_wallet) demo_env
     = (Returned,
        gifter_init\<lparr>welcome_claims := (welcome_claims gifter_init)(demo_sender \<mapsto> claim_time demo_env),
          daily_claims := (daily_claims gifter_init)(today_incr demo_env \<mapsto>
             get_daily_claim_count gifter_init (today_incr demo_env) + 1),
          ledger := ledger gifter_init @ [FetTransfer demo_wallet WELCOME_FET],
          sent := sent gifter_init @ [(demo_sender,
             BnbFailed ''insufficient funds for gas'' (take 16 ''9f3a5c7e1b2d4f60718293a4b5c6d7e8''), True)]\<rparr>)"
  proof (rule claim_welcome_bnb_failed)
    show "\<not> has_claimed_welcome gifter_init demo_sender"
      by (simp add: has_claimed_welcome_def gifter_init_def)
    show "find_evm (''claim '' @ demo_wallet) = Some demo_wallet" by (rule demo_find_evm)
    show "get_daily_claim_count gifter_init (today_check demo_env) < MAX_CLAIMS_PER_DAY"
      by (simp add: get_daily_claim_count_def gifter_init_def MAX_CLAIMS_PER_DAY_def)
    show "treasury_ok demo_env" by (simp add: demo_env_def)
    show "fst (send_fet demo_env gifter_init demo_wallet WELCOME_FET)
        = TxSuccess ''9f3a5c7e1b2d4f60718293a4b5c6d7e8''"
      by (simp add: send_fet_def demo_wallet_shape demo_env_def)
    show "fst (send_bnb demo_env (snd (send_fet demo_env gifter_init demo_wallet WELCOME_FET))
              demo_wallet WELCOME_BNB) = TxFailure ''insufficient funds for gas''"
      by (simp add: send_bnb_def demo_wallet_shape demo_env_def)
    show "reply_sent demo_env" by (simp add: demo_env_def)
  qed
  have r1: "has_claimed_welcome
         (snd (claim_welcome gifter_init demo_sender (''claim '' @ demo_wallet) demo_env)) demo_sender"
    unfolding ok by (simp add: has_claimed_welcome_def)
  have r2: "get_daily_claim_count
         (snd (claim_welcome gifter_init demo_sender (''claim '' @ demo_wallet) demo_env))
         ''2026-01-01'' = 1"
    unfolding ok by (simp add: get_daily_claim_count_def gifter_init_def demo_env_def)
  have f: "fst (claim_welcome gifter_init demo_sender (''claim '' @ demo_wallet) demo_env_raise) = Raised"
    "ledger (snd (claim_welcome gifter_init demo_sender (''claim '' @ demo_wallet) demo_env_raise))
       = [FetTransfer demo_wallet 150]"
    "\<not> has_claimed_welcome
         (snd (claim_welcome gifter_init demo_sender (''claim '' @ demo_wallet) demo_env_raise))
         demo_sender"
    "get_daily_claim_count
         (snd (claim_welcome gifter_init demo_sender (''claim '' @ demo_wallet) demo_env_raise))
         ''2026-01-01'' = 0"
    "sent (snd (claim_welcome gifter_init demo_sender (''claim '' @ demo_wallet) demo_env_raise)) = []"
    unfolding demo_first_claim
    by (simp_all add: has_claimed_welcome_def get_daily_claim_count_def gifter_init_def)
  have g: "ledger (snd (claim_welcome
         (snd (claim_welcome gifter_init demo_sender (''claim '' @ demo_wallet) demo_env_raise))
         demo_sender (''claim '' @ demo_wallet) demo_env_ok))
       = [FetTransfer demo_wallet 150, FetTransfer demo_wallet 150, BnbTransfer demo_wallet (2 / 10)]"
    "sent (snd (claim_welcome
         (snd (claim_welcome gifter_init demo_sender (''claim '' @ demo_wallet) demo_env_raise))
         demo_sender (''claim '' @ demo_wallet) demo_env_ok))
       = [(demo_sender, Welcome demo_wallet ''1c2d3e4f5a6b7c8d'' ''77889900aabbccdd'', True)]"
    unfolding demo_first_claim snd_conv demo_second_claim by simp_all
  from v f g r1 r2 show ?thesis by blast
qed
end
